theory Spec2Isabelle
  imports Complex_Main "HOL-Library.Signed_Division"
begin

section \<open>Values, errors and machine integers\<close>

text \<open>
  A query is a JSON-decoded Go value (\<^verbatim>\<open>interface{}\<close>): \<^verbatim>\<open>nil\<close>, \<^verbatim>\<open>bool\<close>,
  \<^verbatim>\<open>float64\<close>, \<^verbatim>\<open>string\<close>, \<^verbatim>\<open>[]interface{}\<close> or \<^verbatim>\<open>map[string]interface{}\<close>.
  The payload of a number is kept as a rational; the query processor only ever converts
  it (\<^verbatim>\<open>int(f)\<close>, \<^verbatim>\<open>fmt.Sprint\<close>), and both conversions are collaborators below.
  A map is an association list read with \<^const>\<open>map_of\<close>.
\<close>

datatype json =
    JNull
  | JBool bool
  | JNum rat
  | JStr string
  | JArr "json list"
  | JObj "(string \<times> json) list"

text \<open>
  The package-level error values of \<^verbatim>\<open>query.go\<close>, by name. \<^verbatim>\<open>Fault\<close> only fills
  the message text in, which is not modelled. \<open>Panic\<close> is a Go run-time panic
  (division by zero, index out of range, nil dereference).
\<close>

datatype error =
    ErrorMissingLookUp
  | ErrorExpectingLookup
  | ErrorExpectingNumber
  | ErrorNeedIndex
  | ErrorExpectingPath
  | ErrorExpectingPathIn
  | ErrorExpectingSubQuery
  | ErrorMissingPath
  | ErrorExpectingInt
  | ErrorMissing
  | ErrorInvalidPKID
  | ErrorNoOP
  | Panic

text \<open>
  Go's \<^verbatim>\<open>int\<close> is 64 bits wide and wraps around; \<open>wrap64\<close> is that wrap-around,
  written out where the source adds, subtracts or divides. The integers that the
  collaborators hand over (hashes, document IDs, counts) are taken as they come.
\<close>

definition MinInt64 :: int where
  "MinInt64 = - (2 ^ 63)"

definition MaxInt64 :: int where
  "MaxInt64 = 2 ^ 63 - 1"

definition wrap64 :: "int \<Rightarrow> int" where
  "wrap64 n = (n + 2 ^ 63) mod 2 ^ 64 - 2 ^ 63"

definition in_int64 :: "int \<Rightarrow> bool" where
  "in_int64 n \<longleftrightarrow> MinInt64 \<le> n \<and> n \<le> MaxInt64"

text \<open>Go's \<^verbatim>\<open>%\<close> and \<^verbatim>\<open>/\<close> truncate towards zero and panic on a zero divisor.\<close>

definition go_rem :: "int \<Rightarrow> int \<Rightarrow> error + int" where
  "go_rem a b = (if b = 0 then Inl Panic else Inr (a smod b))"

definition go_div :: "int \<Rightarrow> int \<Rightarrow> error + int" where
  "go_div a b = (if b = 0 then Inl Panic else Inr (wrap64 (a sdiv b)))"

text \<open>\<^verbatim>\<open>strings.Join\<close>.\<close>

fun join :: "string \<Rightarrow> string list \<Rightarrow> string" where
  "join sep [] = []"
| "join sep [s] = s"
| "join sep (s # t # ss) = s @ sep @ join sep (t # ss)"

section \<open>Collaborators\<close>

text \<open>
  What \<^verbatim>\<open>query.go\<close> calls but does not define: the string hash, the standard
  library's conversions, the path extractor and the index path separator.
  \<open>ParseInt\<close> is \<^verbatim>\<open>strconv.ParseInt(s, 10, 64)\<close>, \<open>None\<close> when it returns an error;
  \<open>float_to_int\<close> is the conversion \<^verbatim>\<open>int(f)\<close> of a \<^verbatim>\<open>float64\<close>.
\<close>

record ext =
  StrHash :: "string \<Rightarrow> int"
  Sprint :: "json \<Rightarrow> string"
  SprintInt :: "int \<Rightarrow> string"
  ParseInt :: "string \<Rightarrow> int option"
  float_to_int :: "rat \<Rightarrow> int"
  GetIn :: "json \<Rightarrow> string list \<Rightarrow> json list"
  INDEX_PATH_SEP :: string

text \<open>
  One shard of a hash index, by its two read operations: \<open>Get key limit\<close> and
  \<open>GetPartition i n\<close> (keys and document IDs of the \<open>i\<close>-th of \<open>n\<close> slices).
\<close>

record hashtable =
  Get :: "int \<Rightarrow> int \<Rightarrow> int list"
  GetPartition :: "int \<Rightarrow> int \<Rightarrow> int list \<times> int list"

text \<open>
  The collection \<^verbatim>\<open>*Col\<close>: the indexed paths (only the keys of \<^verbatim>\<open>indexPaths\<close>
  are read), \<^verbatim>\<open>db.numParts\<close>, the shards \<^verbatim>\<open>hts[part][path]\<close>, \<^verbatim>\<open>read\<close>
  (\<open>None\<close> when it returns an error), the IDs that \<^verbatim>\<open>forEachDoc\<close> visits and
  \<^verbatim>\<open>approxDocCount\<close>.
\<close>

record col =
  indexPaths :: "string set"
  numParts :: int
  hts :: "(string \<rightharpoonup> hashtable) list"
  read :: "int \<Rightarrow> json option"
  forEachDoc :: "int list"
  approxDocCount :: int

text \<open>
  \<^verbatim>\<open>ht := src.hts[i][name]\<close> followed by \<^verbatim>\<open>ht.Lock.RLock()\<close>: the index panics out
  of range, and a missing map entry is a nil pointer that panics at the lock.
\<close>

definition shard :: "col \<Rightarrow> int \<Rightarrow> string \<Rightarrow> error + hashtable" where
  "shard src i name =
     (if i < 0 \<or> int (length (hts src)) \<le> i then Inl Panic
      else case (hts src ! nat i) name of
             None \<Rightarrow> Inl Panic
           | Some ht \<Rightarrow> Inr ht)"

section \<open>The operators of the query processor\<close>

text \<open>
  The Result Set \<^verbatim>\<open>*map[int]struct{}\<close> is a set of integers passed in and returned.
  Every operator returns the error (\<open>None\<close> for \<^verbatim>\<open>nil\<close>) together with the state in
  which it leaves the Result Set, since the set is mutated in place before an error.
\<close>

type_synonym outcome = "error option \<times> int set"

subsection \<open>EvalAllIDs\<close>

definition EvalAllIDs :: "col \<Rightarrow> int set \<Rightarrow> outcome" where
  "EvalAllIDs src result = (None, foldl (\<lambda>r i. insert i r) result (forEachDoc src))"

subsection \<open>The shared prologue: path vector and limit\<close>

text \<open>
  The block \<^verbatim>\<open>if limit, hasLimit := expr["limit"]; hasLimit {...}\<close> is written out three
  times in the source, letter for letter; it is one function here.
\<close>

definition get_limit :: "ext \<Rightarrow> (string \<times> json) list \<Rightarrow> error + int" where
  "get_limit x expr =
     (case map_of expr ''limit'' of
        None \<Rightarrow> Inr 0
      | Some limit \<Rightarrow>
          (case limit of
             JNum floatLimit \<Rightarrow> Inr (float_to_int x floatLimit)
           | _ \<Rightarrow> Inl ErrorExpectingNumber))"

subsection \<open>Lookup\<close>

fun Lookup_values :: "ext \<Rightarrow> string \<Rightarrow> int \<Rightarrow> json list \<Rightarrow> int set \<Rightarrow> int set" where
  "Lookup_values x lookupStrValue match [] result = result"
| "Lookup_values x lookupStrValue match (v # vs) result =
     Lookup_values x lookupStrValue match vs
       (if Sprint x v = lookupStrValue then insert match result else result)"

fun Lookup_matches ::
  "ext \<Rightarrow> col \<Rightarrow> string list \<Rightarrow> string \<Rightarrow> int list \<Rightarrow> int set \<Rightarrow> int set" where
  "Lookup_matches x src vecPath lookupStrValue [] result = result"
| "Lookup_matches x src vecPath lookupStrValue (match # vals) result =
     Lookup_matches x src vecPath lookupStrValue vals
       (case read src match of
          Some doc \<Rightarrow> Lookup_values x lookupStrValue match (GetIn x doc vecPath) result
        | None \<Rightarrow> result)"

definition Lookup ::
  "ext \<Rightarrow> json \<Rightarrow> (string \<times> json) list \<Rightarrow> col \<Rightarrow> int set \<Rightarrow> outcome" where
  "Lookup x lookupValue expr src result =
     (case map_of expr ''in'' of
        None \<Rightarrow> (Some ErrorMissingLookUp, result)
      | Some path \<Rightarrow>
          (case path of
             JArr vecPathInterface \<Rightarrow>
               (let vecPath = map (Sprint x) vecPathInterface in
                case get_limit x expr of
                  Inl e \<Rightarrow> (Some e, result)
                | Inr intLimit \<Rightarrow>
                    (let lookupStrValue = Sprint x lookupValue;
                         lookupValueHash = StrHash x lookupStrValue;
                         scanPath = join (INDEX_PATH_SEP x) vecPath
                     in if scanPath \<notin> indexPaths src then (Some ErrorNeedIndex, result)
                        else case go_rem lookupValueHash (numParts src) of
                               Inl e \<Rightarrow> (Some e, result)
                             | Inr num \<Rightarrow>
                                 (case shard src num scanPath of
                                    Inl e \<Rightarrow> (Some e, result)
                                  | Inr ht \<Rightarrow>
                                      (None,
                                       Lookup_matches x src vecPath lookupStrValue
                                         (Get ht lookupValueHash intLimit) result))))
           | _ \<Rightarrow> (Some ErrorExpectingLookup, result)))"

subsection \<open>PathExistence\<close>

text \<open>
  The three nested loops, innermost first. Each returns whether the early
  \<^verbatim>\<open>return nil\<close> was taken, the error, the counter and the Result Set.
\<close>

fun PathExistence_ids :: "int \<Rightarrow> int list \<Rightarrow> int \<times> int set \<Rightarrow> bool \<times> int \<times> int set" where
  "PathExistence_ids intLimit [] (counter, result) = (False, counter, result)"
| "PathExistence_ids intLimit (i # ids) (counter, result) =
     (let result' = insert i result; counter' = wrap64 (counter + 1)
      in if counter' = intLimit then (True, counter', result')
         else PathExistence_ids intLimit ids (counter', result'))"

function PathExistence_slices ::
  "hashtable \<Rightarrow> int \<Rightarrow> int \<Rightarrow> int \<Rightarrow> int \<times> int set \<Rightarrow> bool \<times> int \<times> int set" where
  "PathExistence_slices ht intLimit partDiv i st =
     (if i < partDiv then
        (case PathExistence_ids intLimit (snd (GetPartition ht i partDiv)) st of
           (True, st') \<Rightarrow> (True, st')
         | (False, st') \<Rightarrow> PathExistence_slices ht intLimit partDiv (i + 1) st')
      else (False, st))"
  by pat_completeness auto
termination
  by (relation "measure (\<lambda>(ht, intLimit, partDiv, i, st). nat (partDiv - i))") auto

function PathExistence_parts ::
  "col \<Rightarrow> string \<Rightarrow> int \<Rightarrow> int \<Rightarrow> int \<Rightarrow> int \<times> int set \<Rightarrow> error option \<times> int \<times> int set" where
  "PathExistence_parts src jointPath intLimit partDiv iteratePart st =
     (if iteratePart < numParts src then
        (case shard src iteratePart jointPath of
           Inl e \<Rightarrow> (Some e, st)
         | Inr ht \<Rightarrow>
             (case PathExistence_slices ht intLimit partDiv 0 st of
                (True, st') \<Rightarrow> (None, st')
              | (False, st') \<Rightarrow>
                  PathExistence_parts src jointPath intLimit partDiv (iteratePart + 1) st'))
      else (None, st))"
  by pat_completeness auto
termination
  by (relation "measure (\<lambda>(src, jointPath, intLimit, partDiv, iteratePart, st).
        nat (numParts src - iteratePart))") auto

declare PathExistence_slices.simps [simp del] PathExistence_parts.simps [simp del]

definition PathExistence ::
  "ext \<Rightarrow> json \<Rightarrow> (string \<times> json) list \<Rightarrow> col \<Rightarrow> int set \<Rightarrow> outcome" where
  "PathExistence x hasPath expr src result =
     (case hasPath of
        JArr vecPathInterface \<Rightarrow>
          (let vecPath = map (Sprint x) vecPathInterface in
           case get_limit x expr of
             Inl e \<Rightarrow> (Some e, result)
           | Inr intLimit \<Rightarrow>
               (let jointPath = join (INDEX_PATH_SEP x) vecPath
                in if jointPath \<notin> indexPaths src then (Some ErrorNeedIndex, result)
                   else case go_div (approxDocCount src) (numParts src) of
                          Inl e \<Rightarrow> (Some e, result)
                        | Inr q \<Rightarrow>
                            (case go_div q 4000 of
                               Inl e \<Rightarrow> (Some e, result)
                             | Inr partDiv0 \<Rightarrow>
                                 (let partDiv = (if partDiv0 = 0 then wrap64 (partDiv0 + 1)
                                                 else partDiv0)
                                  in case PathExistence_parts src jointPath intLimit partDiv 0
                                            (0, result) of
                                       (err, counter, result') \<Rightarrow> (err, result')))))
      | _ \<Rightarrow> (Some ErrorExpectingPath, result))"

subsection \<open>IntRange\<close>

definition hashScan :: "col \<Rightarrow> string \<Rightarrow> int \<Rightarrow> int \<Rightarrow> error + int list" where
  "hashScan col idxName key limit =
     (case go_rem key (numParts col) of
        Inl e \<Rightarrow> Inl e
      | Inr part \<Rightarrow>
          (case shard col part idxName of
             Inl e \<Rightarrow> Inl e
           | Inr ht \<Rightarrow> Inr (Get ht key limit)))"

text \<open>The inner loop over \<^verbatim>\<open>vals\<close>, with its \<^verbatim>\<open>break\<close>.\<close>

fun IntRange_vals :: "int \<Rightarrow> int list \<Rightarrow> int \<times> int set \<Rightarrow> int \<times> int set" where
  "IntRange_vals intLimit [] (counter, result) = (counter, result)"
| "IntRange_vals intLimit (docID # vals) (counter, result) =
     (if intLimit > 0 \<and> counter = intLimit then (counter, result)
      else IntRange_vals intLimit vals (wrap64 (counter + 1), insert docID result))"

text \<open>
  The two outer loops. \<^verbatim>\<open>lookupValue++\<close> and \<^verbatim>\<open>lookupValue--\<close> wrap around, so
  a loop whose bound is the largest (smallest) \<^verbatim>\<open>int\<close> never ends: the loops are
  partial functions and \<open>None\<close> is not returning. Beside the counter and the Result Set
  the state records \<open>probes\<close>, the values of \<^verbatim>\<open>lookupValue\<close> for which
  \<^verbatim>\<open>hashScan\<close> was called, in the order of the calls.
\<close>

type_synonym scan_state = "int list \<times> int \<times> int set"

partial_function (option) IntRange_forward ::
  "ext \<Rightarrow> col \<Rightarrow> string \<Rightarrow> int \<Rightarrow> int \<Rightarrow> int \<Rightarrow> scan_state \<Rightarrow> (error option \<times> scan_state) option"
where
  "IntRange_forward x src htPath intLimit to lookupValue st =
     (if lookupValue \<le> to then
        (case st of (probes, cr) \<Rightarrow>
           (case hashScan src htPath (StrHash x (SprintInt x lookupValue)) intLimit of
              Inl e \<Rightarrow> Some (Some e, probes @ [lookupValue], cr)
            | Inr vals \<Rightarrow>
                IntRange_forward x src htPath intLimit to (wrap64 (lookupValue + 1))
                  (probes @ [lookupValue], IntRange_vals intLimit vals cr)))
      else Some (None, st))"

partial_function (option) IntRange_backward ::
  "ext \<Rightarrow> col \<Rightarrow> string \<Rightarrow> int \<Rightarrow> int \<Rightarrow> int \<Rightarrow> scan_state \<Rightarrow> (error option \<times> scan_state) option"
where
  "IntRange_backward x src htPath intLimit to lookupValue st =
     (if lookupValue \<ge> to then
        (case st of (probes, cr) \<Rightarrow>
           (case hashScan src htPath (StrHash x (SprintInt x lookupValue)) intLimit of
              Inl e \<Rightarrow> Some (Some e, probes @ [lookupValue], cr)
            | Inr vals \<Rightarrow>
                IntRange_backward x src htPath intLimit to (wrap64 (lookupValue - 1))
                  (probes @ [lookupValue], IntRange_vals intLimit vals cr)))
      else Some (None, st))"

declare IntRange_forward.simps [code] IntRange_backward.simps [code]

text \<open>
  Lines 255 to 289: the counter, the index check and the scan. The advisory of line 253
  only writes to the log and is left out.
\<close>

definition IntRange_scan ::
  "ext \<Rightarrow> col \<Rightarrow> string list \<Rightarrow> int \<Rightarrow> int \<Rightarrow> int \<Rightarrow> int set \<Rightarrow> (error option \<times> scan_state) option"
where
  "IntRange_scan x src vecPath intLimit from to result =
     (let counter = 0; htPath = join '','' vecPath
      in if htPath \<notin> indexPaths src then Some (Some ErrorNeedIndex, [], counter, result)
         else if from < to then
           IntRange_forward x src htPath intLimit to from ([], counter, result)
         else
           IntRange_backward x src htPath intLimit to from ([], counter, result))"

text \<open>The bound \<^verbatim>\<open>int-to\<close>, or under its older spelling \<^verbatim>\<open>int to\<close>.\<close>

definition IntRange_to :: "ext \<Rightarrow> (string \<times> json) list \<Rightarrow> error + int" where
  "IntRange_to x expr =
     (case map_of expr ''int-to'' of
        Some intTo \<Rightarrow>
          (case intTo of
             JNum floatTo \<Rightarrow> Inr (float_to_int x floatTo)
           | _ \<Rightarrow> Inl ErrorExpectingInt)
      | None \<Rightarrow>
          (case map_of expr ''int to'' of
             Some intTo \<Rightarrow>
               (case intTo of
                  JNum floatTo \<Rightarrow> Inr (float_to_int x floatTo)
                | _ \<Rightarrow> Inl ErrorExpectingInt)
           | None \<Rightarrow> Inl ErrorMissing))"

definition IntRange ::
  "ext \<Rightarrow> json \<Rightarrow> (string \<times> json) list \<Rightarrow> col \<Rightarrow> int set \<Rightarrow> outcome option" where
  "IntRange x intFrom expr src result =
     (case map_of expr ''in'' of
        None \<Rightarrow> Some (Some ErrorMissingPath, result)
      | Some path \<Rightarrow>
          (case path of
             JArr vecPathInterface \<Rightarrow>
               (let vecPath = map (Sprint x) vecPathInterface in
                case get_limit x expr of
                  Inl e \<Rightarrow> Some (Some e, result)
                | Inr intLimit \<Rightarrow>
                    (case intFrom of
                       JNum floatFrom \<Rightarrow>
                         (let from = float_to_int x floatFrom in
                          case IntRange_to x expr of
                            Inl e \<Rightarrow> Some (Some e, result)
                          | Inr to \<Rightarrow>
                              map_option (\<lambda>(err, probes, counter, result'). (err, result'))
                                (IntRange_scan x src vecPath intLimit from to result))
                     | _ \<Rightarrow> Some (Some ErrorExpectingInt, result)))
           | _ \<Rightarrow> Some (Some ErrorExpectingPathIn, result)))"

subsection \<open>evalQuery, EvalUnion, Intersect and Complement\<close>

lemma map_of_size:
  "map_of kvs k = Some v \<Longrightarrow> size v < Suc (size_list (size_prod (\<lambda>_. 0) size) kvs)"
  by (induction kvs) (auto split: if_splits)

text \<open>
  The loops of Intersect and Complement iterate over the keys of a Go map; what they
  build does not depend on the order, and is written with \<^const>\<open>Set.filter\<close>.
  \<open>Intersect_loop\<close> and \<open>Complement_loop\<close> are the \<^verbatim>\<open>for\<close> loops of the two
  functions, \<open>first\<close> the flag of that name. \<open>None\<close> is an evaluation that does not
  return (see IntRange).
\<close>

function
  evalQuery :: "ext \<Rightarrow> json \<Rightarrow> col \<Rightarrow> int set \<Rightarrow> outcome option" and
  EvalUnion :: "ext \<Rightarrow> json list \<Rightarrow> col \<Rightarrow> int set \<Rightarrow> outcome option" and
  Intersect :: "ext \<Rightarrow> json \<Rightarrow> col \<Rightarrow> int set \<Rightarrow> outcome option" and
  Intersect_loop :: "ext \<Rightarrow> json list \<Rightarrow> col \<Rightarrow> bool \<Rightarrow> int set \<Rightarrow> outcome option" and
  Complement :: "ext \<Rightarrow> json \<Rightarrow> col \<Rightarrow> int set \<Rightarrow> outcome option" and
  Complement_loop :: "ext \<Rightarrow> json list \<Rightarrow> col \<Rightarrow> int set \<Rightarrow> outcome option"
where
  "evalQuery x q src result =
     (case q of
        JArr expr \<Rightarrow> EvalUnion x expr src result
      | JStr expr \<Rightarrow>
          (if expr = ''all'' then Some (EvalAllIDs src result)
           else case ParseInt x expr of
                  None \<Rightarrow> Some (Some ErrorInvalidPKID, result)
                | Some docID \<Rightarrow> Some (None, insert docID result))
      | JObj expr \<Rightarrow>
          (case map_of expr ''eq'' of
             Some lookupValue \<Rightarrow> Some (Lookup x lookupValue expr src result)
           | None \<Rightarrow>
          (case map_of expr ''has'' of
             Some hasPath \<Rightarrow> Some (PathExistence x hasPath expr src result)
           | None \<Rightarrow>
          (case map_of expr ''n'' of
             Some subExprs \<Rightarrow> Intersect x subExprs src result
           | None \<Rightarrow>
          (case map_of expr ''c'' of
             Some subExprs \<Rightarrow> Complement x subExprs src result
           | None \<Rightarrow>
          (case map_of expr ''int-from'' of
             Some intFrom \<Rightarrow> IntRange x intFrom expr src result
           | None \<Rightarrow>
          (case map_of expr ''int from'' of
             Some intFrom \<Rightarrow> IntRange x intFrom expr src result
           | None \<Rightarrow> Some (Some ErrorNoOP, result)))))))
      | _ \<Rightarrow> Some (None, result))"
| "EvalUnion x exprs src result =
     (case exprs of
        [] \<Rightarrow> Some (None, result)
      | subExpr # rest \<Rightarrow>
          (case evalQuery x subExpr src result of
             None \<Rightarrow> None
           | Some (Some err, result') \<Rightarrow> Some (Some err, result')
           | Some (None, result') \<Rightarrow> EvalUnion x rest src result'))"
| "Intersect x subExprs src result =
     (case subExprs of
        JArr subExprVecs \<Rightarrow> Intersect_loop x subExprVecs src True result
      | _ \<Rightarrow> Some (Some ErrorExpectingSubQuery, result))"
| "Intersect_loop x subExprVecs src first result =
     (case subExprVecs of
        [] \<Rightarrow> Some (None, result)
      | subExpr # rest \<Rightarrow>
          (case evalQuery x subExpr src {} of
             None \<Rightarrow> None
           | Some (Some err, subResult) \<Rightarrow> Some (Some err, result)
           | Some (None, subResult) \<Rightarrow>
               (if first then Intersect_loop x rest src False subResult
                else Intersect_loop x rest src False
                       (Set.filter (\<lambda>k. k \<in> result) subResult))))"
| "Complement x subExprs src result =
     (case subExprs of
        JArr subExprVecs \<Rightarrow> Complement_loop x subExprVecs src result
      | _ \<Rightarrow> Some (Some ErrorExpectingSubQuery, result))"
| "Complement_loop x subExprVecs src result =
     (case subExprVecs of
        [] \<Rightarrow> Some (None, result)
      | subExpr # rest \<Rightarrow>
          (case evalQuery x subExpr src {} of
             None \<Rightarrow> None
           | Some (Some err, subResult) \<Rightarrow> Some (Some err, result)
           | Some (None, subResult) \<Rightarrow>
               Complement_loop x rest src
                 (Set.filter (\<lambda>k. k \<notin> result) subResult \<union>
                  Set.filter (\<lambda>k. k \<notin> subResult) result)))"
  by pat_completeness auto


termination
proof (relation "measure (\<lambda>a. case a of
    Inl (Inl (x, q, src, result)) \<Rightarrow> 2 * size q
  | Inl (Inr (Inl (x, exprs, src, result))) \<Rightarrow> 2 * size_list size exprs + 1
  | Inl (Inr (Inr (x, subExprs, src, result))) \<Rightarrow> 2 * size subExprs + 1
  | Inr (Inl (x, subExprVecs, src, first, result)) \<Rightarrow> 2 * size_list size subExprVecs + 1
  | Inr (Inr (Inl (x, subExprs, src, result))) \<Rightarrow> 2 * size subExprs + 1
  | Inr (Inr (Inr (x, subExprVecs, src, result))) \<Rightarrow> 2 * size_list size subExprVecs + 1)",
  goal_cases)
  case 1 show ?case by simp
next
  case 2 then show ?case by simp
next
  case (3 x q src result x6 x2)
  from map_of_size[OF 3(5)] 3(1) show ?case by simp
next
  case (4 x q src result x6 x2)
  from map_of_size[OF 4(4)] 4(1) show ?case by simp
qed simp_all

text \<open>The entry point; the schema lock it takes has no effect on the result.\<close>

definition EvalQuery :: "ext \<Rightarrow> json \<Rightarrow> col \<Rightarrow> int set \<Rightarrow> outcome option" where
  "EvalQuery x q src result = evalQuery x q src result"

section \<open>A concrete collection\<close>

text \<open>
  Stand-ins for the collaborators, used where a statement is evaluated on a concrete
  input: a hash that adds the character codes, decimal printing and parsing, a path
  extractor on nested objects, and shards built from a list of (hash key, document ID)
  entries.
\<close>

definition demo_StrHash :: "string \<Rightarrow> int" where
  "demo_StrHash s = sum_list (map of_char s)"

fun show_nat :: "nat \<Rightarrow> string" where
  "show_nat n =
     (if n < 10 then [char_of (48 + n)]
      else show_nat (n div 10) @ [char_of (48 + n mod 10)])"

definition demo_SprintInt :: "int \<Rightarrow> string" where
  "demo_SprintInt n = (if n < 0 then CHR ''-'' # show_nat (nat (- n)) else show_nat (nat n))"

definition demo_Sprint :: "json \<Rightarrow> string" where
  "demo_Sprint v =
     (case v of
        JStr s \<Rightarrow> s
      | JNum q \<Rightarrow> demo_SprintInt \<lfloor>q\<rfloor>
      | JBool b \<Rightarrow> (if b then ''true'' else ''false'')
      | JNull \<Rightarrow> ''<nil>''
      | _ \<Rightarrow> ''[]'')"

fun parse_digits :: "nat \<Rightarrow> string \<Rightarrow> nat option" where
  "parse_digits acc [] = Some acc"
| "parse_digits acc (c # cs) =
     (let d = (of_char c :: nat)
      in if 48 \<le> d \<and> d \<le> 57 then parse_digits (acc * 10 + (d - 48)) cs else None)"

definition demo_ParseInt :: "string \<Rightarrow> int option" where
  "demo_ParseInt s =
     (case s of
        [] \<Rightarrow> None
      | c # cs \<Rightarrow>
          (let r = (if c = CHR ''-'' then
                      (if cs = [] then None else map_option (\<lambda>n. - int n) (parse_digits 0 cs))
                    else if c = CHR ''+'' then
                      (if cs = [] then None else map_option int (parse_digits 0 cs))
                    else map_option int (parse_digits 0 s))
           in case r of
                None \<Rightarrow> None
              | Some n \<Rightarrow> if in_int64 n then Some n else None))"

definition demo_float_to_int :: "rat \<Rightarrow> int" where
  "demo_float_to_int q = (if 0 \<le> q then \<lfloor>q\<rfloor> else \<lceil>q\<rceil>)"

fun demo_GetIn :: "json \<Rightarrow> string list \<Rightarrow> json list" where
  "demo_GetIn (JArr vs) [] = vs"
| "demo_GetIn v [] = [v]"
| "demo_GetIn (JObj kvs) (seg # path) =
     (case map_of kvs seg of None \<Rightarrow> [] | Some v \<Rightarrow> demo_GetIn v path)"
| "demo_GetIn v (seg # path) = []"

definition demo_ext :: ext where
  "demo_ext =
     \<lparr>StrHash = demo_StrHash, Sprint = demo_Sprint, SprintInt = demo_SprintInt,
      ParseInt = demo_ParseInt, float_to_int = demo_float_to_int, GetIn = demo_GetIn,
      INDEX_PATH_SEP = '',''\<rparr>"

definition ht_of :: "(int \<times> int) list \<Rightarrow> hashtable" where
  "ht_of entries =
     \<lparr>Get = (\<lambda>key limit.
              let ids = map snd (filter (\<lambda>e. fst e = key) entries)
              in if limit > 0 then take (nat limit) ids else ids),
      GetPartition = (\<lambda>i n.
              let len = int (length entries);
                  part = drop (nat (i * len div n)) (take (nat ((i + 1) * len div n)) entries)
              in (map fst part, map snd part))\<rparr>"

text \<open>
  Five documents; \<^verbatim>\<open>a\<close> and \<^verbatim>\<open>b\<close> are indexed, \<^verbatim>\<open>c\<close> is not. Document 1 has two values at
  \<^verbatim>\<open>b\<close>, the values 12 and 21 at \<^verbatim>\<open>a\<close> collide under the hash, and the index of
  \<^verbatim>\<open>a\<close> holds a stale entry for a document 9 that cannot be read.
\<close>

definition demo_docs :: "(int \<times> json) list" where
  "demo_docs =
     [(1, JObj [(''a'', JNum 1), (''b'', JArr [JNum 7, JNum 8])]),
      (2, JObj [(''a'', JNum 2), (''b'', JNum 9)]),
      (3, JObj [(''a'', JNum 5), (''c'', JNum 1)]),
      (4, JObj [(''a'', JNum 12)]),
      (5, JObj [(''a'', JNum 21)])]"

definition demo_index :: "string \<Rightarrow> (int \<times> int) list option" where
  "demo_index name =
     (if name = ''a'' then Some [(49, 1), (50, 2), (53, 3), (99, 4), (99, 5), (99, 9)]
      else if name = ''b'' then Some [(56, 1), (55, 1), (57, 2)]
      else None)"

definition demo_shard :: "int \<Rightarrow> string \<rightharpoonup> hashtable" where
  "demo_shard p name =
     map_option (\<lambda>entries. ht_of (filter (\<lambda>e. fst e mod 2 = p) entries)) (demo_index name)"

definition demo_col :: col where
  "demo_col =
     \<lparr>indexPaths = {''a'', ''b''}, numParts = 2, hts = [demo_shard 0, demo_shard 1],
      read = map_of demo_docs, forEachDoc = map fst demo_docs, approxDocCount = 5\<rparr>"

section \<open>Notions of the specification\<close>

text \<open>The symmetric difference of two sets, the XOR of the specification.\<close>

definition sym_diff :: "int set \<Rightarrow> int set \<Rightarrow> int set" where
  "sym_diff A B = (A - B) \<union> (B - A)"

text \<open>The path vector that Lookup builds from the \<^verbatim>\<open>in\<close> field of its expression.\<close>

definition Lookup_path :: "ext \<Rightarrow> (string \<times> json) list \<Rightarrow> string list" where
  "Lookup_path x expr =
     (case map_of expr ''in'' of
        Some (JArr vecPathInterface) \<Rightarrow> map (Sprint x) vecPathInterface
      | _ \<Rightarrow> [])"



text \<open>
  A query that is a string, or an object that evalQuery hands to Lookup, PathExistence
  or IntRange or rejects with \<open>ErrorNoOP\<close>: every query that is not a Union, an
  Intersect or a Complement.
\<close>

definition leaf_query :: "json \<Rightarrow> bool" where
  "leaf_query q =
     (case q of
        JArr subExprs \<Rightarrow> False
      | JObj expr \<Rightarrow>
          map_of expr ''eq'' \<noteq> None \<or> map_of expr ''has'' \<noteq> None \<or>
          (map_of expr ''n'' = None \<and> map_of expr ''c'' = None)
      | _ \<Rightarrow> True)"

text \<open>
  A query without Intersect and without Complement: a Union of such queries, or a query
  that is not a Union, an Intersect or a Complement.
\<close>

fun additive :: "json \<Rightarrow> bool" where
  "additive (JArr subExprs) = (\<forall>q \<in> set subExprs. additive q)"
| "additive q = leaf_query q"

text \<open>
  The number of slices per shard as PathExistence computes it, and the document IDs of
  the index entries of a path in the order in which PathExistence reads them: shard
  after shard, slice after slice.
\<close>

definition PathExistence_partDiv :: "col \<Rightarrow> int" where
  "PathExistence_partDiv src =
     (let partDiv = wrap64 (wrap64 (approxDocCount src sdiv numParts src) sdiv 4000)
      in if partDiv = 0 then wrap64 (partDiv + 1) else partDiv)"

definition shard_entries :: "hashtable \<Rightarrow> int \<Rightarrow> int \<Rightarrow> int list" where
  "shard_entries ht partDiv i = concat (map (\<lambda>j. snd (GetPartition ht j partDiv)) [i..partDiv - 1])"

definition PathExistence_entries_from :: "col \<Rightarrow> string \<Rightarrow> int \<Rightarrow> int \<Rightarrow> int list" where
  "PathExistence_entries_from src jointPath partDiv iteratePart =
     concat (map (\<lambda>p. case shard src p jointPath of
                         Inl e \<Rightarrow> []
                       | Inr ht \<Rightarrow> shard_entries ht partDiv 0)
                 [iteratePart..numParts src - 1])"

definition PathExistence_entries :: "col \<Rightarrow> string \<Rightarrow> int list" where
  "PathExistence_entries src jointPath =
     PathExistence_entries_from src jointPath (PathExistence_partDiv src) 0"

section \<open>Equations of the evaluator\<close>

lemma evalQuery_JArr [simp]:
  "evalQuery x (JArr expr) src result = EvalUnion x expr src result"
  by simp

lemma evalQuery_JStr [simp]:
  "evalQuery x (JStr expr) src result =
     (if expr = ''all'' then Some (EvalAllIDs src result)
      else case ParseInt x expr of
             None \<Rightarrow> Some (Some ErrorInvalidPKID, result)
           | Some docID \<Rightarrow> Some (None, insert docID result))"
  by simp

lemma evalQuery_other [simp]:
  "evalQuery x JNull src result = Some (None, result)"
  "evalQuery x (JBool b) src result = Some (None, result)"
  "evalQuery x (JNum n) src result = Some (None, result)"
  by simp_all

lemma evalQuery_JObj:
  "evalQuery x (JObj expr) src result =
     (case map_of expr ''eq'' of
        Some lookupValue \<Rightarrow> Some (Lookup x lookupValue expr src result)
      | None \<Rightarrow>
     (case map_of expr ''has'' of
        Some hasPath \<Rightarrow> Some (PathExistence x hasPath expr src result)
      | None \<Rightarrow>
     (case map_of expr ''n'' of
        Some subExprs \<Rightarrow> Intersect x subExprs src result
      | None \<Rightarrow>
     (case map_of expr ''c'' of
        Some subExprs \<Rightarrow> Complement x subExprs src result
      | None \<Rightarrow>
     (case map_of expr ''int-from'' of
        Some intFrom \<Rightarrow> IntRange x intFrom expr src result
      | None \<Rightarrow>
     (case map_of expr ''int from'' of
        Some intFrom \<Rightarrow> IntRange x intFrom expr src result
      | None \<Rightarrow> Some (Some ErrorNoOP, result)))))))"
  by simp

lemma EvalUnion_Nil [simp]: "EvalUnion x [] src result = Some (None, result)"
  by simp

lemma EvalUnion_Cons:
  "EvalUnion x (subExpr # rest) src result =
     (case evalQuery x subExpr src result of
        None \<Rightarrow> None
      | Some (Some err, result') \<Rightarrow> Some (Some err, result')
      | Some (None, result') \<Rightarrow> EvalUnion x rest src result')"
  by (subst EvalUnion.simps) simp

lemma Intersect_JArr [simp]:
  "Intersect x (JArr subExprVecs) src result = Intersect_loop x subExprVecs src True result"
  by simp

lemma Intersect_loop_Nil [simp]: "Intersect_loop x [] src first result = Some (None, result)"
  by simp

lemma Intersect_loop_Cons:
  "Intersect_loop x (subExpr # rest) src first result =
     (case evalQuery x subExpr src {} of
        None \<Rightarrow> None
      | Some (Some err, subResult) \<Rightarrow> Some (Some err, result)
      | Some (None, subResult) \<Rightarrow>
          (if first then Intersect_loop x rest src False subResult
           else Intersect_loop x rest src False (Set.filter (\<lambda>k. k \<in> result) subResult)))"
  by (subst Intersect_loop.simps) simp

lemma Complement_JArr [simp]:
  "Complement x (JArr subExprVecs) src result = Complement_loop x subExprVecs src result"
  by simp

lemma Complement_loop_Nil [simp]: "Complement_loop x [] src result = Some (None, result)"
  by simp

lemma Complement_loop_Cons:
  "Complement_loop x (subExpr # rest) src result =
     (case evalQuery x subExpr src {} of
        None \<Rightarrow> None
      | Some (Some err, subResult) \<Rightarrow> Some (Some err, result)
      | Some (None, subResult) \<Rightarrow>
          Complement_loop x rest src
            (Set.filter (\<lambda>k. k \<notin> result) subResult \<union> Set.filter (\<lambda>k. k \<notin> subResult) result))"
  by (subst Complement_loop.simps) simp

declare evalQuery.simps [simp del] EvalUnion.simps [simp del] Intersect.simps [simp del]
  Intersect_loop.simps [simp del] Complement.simps [simp del] Complement_loop.simps [simp del]

section \<open>Values that are not queries\<close>

text \<open>
  Claim C10. Evaluating an expression that is neither a sequence, a string nor a map
  (\<^verbatim>\<open>nil\<close>, a boolean or a number) returns without an error, not with
  \<open>ErrorNoOP\<close>, and leaves the Result Set as it was: the type switch of
  \<^verbatim>\<open>evalQuery\<close> has no case for it and falls through to \<^verbatim>\<open>return nil\<close>.
\<close>

theorem evalQuery_non_query_value:
  "evalQuery x JNull src result = Some (None, result) \<and>
   evalQuery x (JBool b) src result = Some (None, result) \<and>
   evalQuery x (JNum n) src result = Some (None, result) \<and>
   EvalQuery x JNull src result = Some (None, result) \<and>
   EvalQuery x (JBool b) src result = Some (None, result) \<and>
   EvalQuery x (JNum n) src result = Some (None, result)"
  by (simp add: EvalQuery_def)

section \<open>Intersect of no sub-expression\<close>

text \<open>
  Claim C2, as stated: for every collection and every Result Set, Intersect of an empty
  list succeeds and yields the empty set. It fails on a Result Set that is not empty:
  the loop body never runs, so the set \<open>{1}\<close> stays \<open>{1}\<close>.
\<close>

theorem Intersect_empty_list_counterexample:
  "Intersect demo_ext (JArr []) demo_col {1} = Some (None, {1}) \<and>
   Intersect demo_ext (JArr []) demo_col {1} \<noteq> Some (None, {})"
  by simp

text \<open>
  Claim C2, amended: for every collection and every Result Set, Intersect of an empty
  list succeeds and leaves the Result Set unchanged; it yields the empty set exactly
  when it starts from the empty set.
\<close>

theorem Intersect_empty_list_unchanged:
  "Intersect x (JArr []) src result = Some (None, result) \<and>
   Intersect x (JArr []) src {} = Some (None, {})"
  by simp

section \<open>Complement\<close>

lemma Complement_step_sym_diff:
  "Set.filter (\<lambda>k. k \<notin> result) subResult \<union> Set.filter (\<lambda>k. k \<notin> subResult) result =
   sym_diff result subResult"
  by (auto simp: sym_diff_def)

lemma Complement_step_sym_diff':
  "{a \<in> subResult. a \<notin> result} \<union> {a \<in> result. a \<notin> subResult} = sym_diff result subResult"
  by (auto simp: sym_diff_def)

lemma Complement_loop_chain:
  "list_all2 (\<lambda>q S. evalQuery x q src {} = Some (None, S)) qs Ss \<Longrightarrow>
   Complement_loop x qs src R = Some (None, foldl sym_diff R Ss)"
proof (induction qs Ss arbitrary: R rule: list_all2_induct)
  case Nil
  then show ?case by simp
next
  case (Cons q qs S Ss)
  then show ?case
    by (simp add: Complement_loop_Cons Complement_step_sym_diff Complement_step_sym_diff')
qed

text \<open>
  Claim C1. Complement is a chained symmetric difference: when every sub-expression
  evaluates (into a fresh set) to \<open>S\<^sub>1, \<dots>, S\<^sub>n\<close>, the running set \<open>R\<close> ends as
  \<open>(\<dots>((R XOR S\<^sub>1) XOR S\<^sub>2)\<dots>) XOR S\<^sub>n\<close>. In particular Complement of \<open>[A]\<close> on
  the empty running set is the result of \<open>A\<close>, and Complement of \<open>[A, A]\<close> gives the
  running set back.
\<close>

theorem Complement_chained_symmetric_difference:
  "(list_all2 (\<lambda>q S. evalQuery x q src {} = Some (None, S)) qs Ss \<longrightarrow>
      Complement x (JArr qs) src R = Some (None, foldl sym_diff R Ss)) \<and>
   (evalQuery x A src {} = Some (None, S) \<longrightarrow>
      Complement x (JArr [A]) src {} = Some (None, S) \<and>
      Complement x (JArr [A, A]) src R = Some (None, R))"
proof (intro conjI impI)
  assume "list_all2 (\<lambda>q S. evalQuery x q src {} = Some (None, S)) qs Ss"
  then show "Complement x (JArr qs) src R = Some (None, foldl sym_diff R Ss)"
    by (simp add: Complement_loop_chain)
next
  assume A: "evalQuery x A src {} = Some (None, S)"
  then have "list_all2 (\<lambda>q S. evalQuery x q src {} = Some (None, S)) [A] [S]"
    by simp
  from Complement_loop_chain [OF this, of "{}"]
  show "Complement x (JArr [A]) src {} = Some (None, S)"
    by (simp add: sym_diff_def)
  from A have "list_all2 (\<lambda>q S. evalQuery x q src {} = Some (None, S)) [A, A] [S, S]"
    by simp
  from Complement_loop_chain [OF this, of R]
  show "Complement x (JArr [A, A]) src R = Some (None, R)"
    by (auto simp: sym_diff_def)
qed

text \<open>The statement of C1 on the concrete collection.\<close>

theorem Complement_chained_symmetric_difference_witness:
  "Complement demo_ext (JArr [JStr ''1'', JStr ''2'']) demo_col {1, 7} = Some (None, {2, 7}) \<and>
   Complement demo_ext (JArr [JStr ''all'']) demo_col {} = Some (None, {1, 2, 3, 4, 5}) \<and>
   Complement demo_ext (JArr [JStr ''all'', JStr ''all'']) demo_col {1, 7} = Some (None, {1, 7})"
proof -
  have h1: "list_all2 (\<lambda>q S. evalQuery demo_ext q demo_col {} = Some (None, S))
              [JStr ''1'', JStr ''2''] [{1}, {2}]"
    by code_simp
  have h2: "evalQuery demo_ext (JStr ''all'') demo_col {} = Some (None, {1, 2, 3, 4, 5})"
    by code_simp
  have s: "foldl sym_diff {1, 7} [{1}, {2}] = {2, 7::int}"
    by (auto simp: sym_diff_def)
  from Complement_chained_symmetric_difference
         [of demo_ext demo_col "[JStr ''1'', JStr ''2'']" "[{1}, {2}]" "{1, 7}"
             "JStr ''all''" "{1, 2, 3, 4, 5}"] h1 h2 s
  show ?thesis by simp
qed

section \<open>Lookup filters hash collisions\<close>

lemma Lookup_values_eq:
  "Lookup_values x s m vs R = (if \<exists>v \<in> set vs. Sprint x v = s then insert m R else R)"
  by (induction vs arbitrary: R) auto

lemma Lookup_matches_eq:
  "Lookup_matches x src p s ms R =
     R \<union> {m \<in> set ms. \<exists>doc. read src m = Some doc \<and> (\<exists>v \<in> set (GetIn x doc p). Sprint x v = s)}"
  by (induction ms arbitrary: R) (auto simp: Lookup_values_eq split: option.splits)

lemma shard_read_update [simp]: "shard (src\<lparr>read := r\<rparr>) i name = shard src i name"
  by (simp add: shard_def)

lemma Lookup_sound:
  assumes "Lookup x v expr src R = (err, R')" and "i \<in> R'" and "i \<notin> R"
  shows "\<exists>doc. read src i = Some doc \<and>
           (\<exists>w \<in> set (GetIn x doc (Lookup_path x expr)). Sprint x w = Sprint x v)"
  using assms
  by (auto simp: Lookup_def Lookup_path_def Let_def Lookup_matches_eq
           split: option.splits json.splits sum.splits if_splits)

lemma Lookup_error_read:
  "fst (Lookup x v expr (src\<lparr>read := r\<rparr>) R) = fst (Lookup x v expr src R)"
  by (simp add: Lookup_def Let_def split: option.splits json.splits sum.splits)

lemma Lookup_unreadable:
  "snd (Lookup x v expr (src\<lparr>read := \<lambda>i. None\<rparr>) R) = R"
  by (simp add: Lookup_def Let_def Lookup_matches_eq split: option.splits json.splits sum.splits)

text \<open>
  Claim C5. An ID that Lookup adds to the Result Set belongs to a document that was read
  back without error and has, at the lookup path, a value whose string form equals the
  string form of the target; a hash collision alone never adds an ID. A failed read
  drops the candidate: the error that Lookup returns does not depend on what
  \<^verbatim>\<open>read\<close> answers, and when no candidate can be read nothing is added.
\<close>

theorem Lookup_no_false_positive:
  "(Lookup x v expr src R = (err, R') \<longrightarrow>
      (\<forall>i \<in> R' - R. \<exists>doc. read src i = Some doc \<and>
          (\<exists>w \<in> set (GetIn x doc (Lookup_path x expr)). Sprint x w = Sprint x v))) \<and>
   fst (Lookup x v expr (src\<lparr>read := r\<rparr>) R) = fst (Lookup x v expr src R) \<and>
   snd (Lookup x v expr (src\<lparr>read := \<lambda>i. None\<rparr>) R) = R"
  using Lookup_sound [of x v expr src R err R'] Lookup_error_read Lookup_unreadable
  by blast

text \<open>
  On the concrete collection: documents 4 and 5 and the stale entry 9 share the hash of
  \<open>12\<close>; only document 4 is returned.
\<close>

theorem Lookup_no_false_positive_witness:
  "Lookup demo_ext (JNum 12) [(''eq'', JNum 12), (''in'', JArr [JStr ''a''])] demo_col {} =
     (None, {4}) \<and>
   (\<exists>doc w. read demo_col 4 = Some doc \<and>
       w \<in> set (GetIn demo_ext doc
                  (Lookup_path demo_ext [(''eq'', JNum 12), (''in'', JArr [JStr ''a''])])) \<and>
       Sprint demo_ext w = Sprint demo_ext (JNum 12))"
proof -
  have h: "Lookup demo_ext (JNum 12) [(''eq'', JNum 12), (''in'', JArr [JStr ''a''])]
             demo_col {} = (None, {4})"
    by code_simp
  have i: "(4::int) \<in> {4} - {}"
    by simp
  from Lookup_no_false_positive
         [of demo_ext "JNum 12" "[(''eq'', JNum 12), (''in'', JArr [JStr ''a''])]"
             demo_col "{}" None "{4}"] h i
  show ?thesis by blast
qed

section \<open>Predicates need an index\<close>



section \<open>IntRange\<close>

text \<open>
  Away from the two ends of the 64-bit range the loops of IntRange return, and are the
  scan of the specification over the ascending, respectively descending, list of
  integers.
\<close>

lemma wrap64_id: "in_int64 n \<Longrightarrow> wrap64 n = n"
  by (simp add: wrap64_def in_int64_def MinInt64_def MaxInt64_def)



text \<open>
  With \<open>to\<close> the largest \<^verbatim>\<open>int\<close> the test \<^verbatim>\<open>lookupValue <= to\<close> cannot fail and
  \<^verbatim>\<open>lookupValue++\<close> wraps around: unless a lookup panics the upward loop does not
  return, and likewise the downward loop with \<open>to\<close> the smallest \<^verbatim>\<open>int\<close>. The
  statements about IntRange below keep clear of these two bounds.
\<close>

lemma wrap64_in_int64: "in_int64 (wrap64 n)"
proof -
  have "0 \<le> (n + 2 ^ 63) mod 2 ^ 64" "(n + 2 ^ 63) mod 2 ^ 64 < (2 ^ 64 :: int)"
    by simp_all
  then show ?thesis
    by (simp add: wrap64_def in_int64_def MinInt64_def MaxInt64_def)
qed

lemma IntRange_forward_diverges:
  assumes np: "\<forall>v. \<not> isl (hashScan src h (StrHash x (SprintInt x v)) L)"
    and "MaxInt64 \<le> to" and "in_int64 v"
  shows "IntRange_forward x src h L to v st = None"
proof (rule ccontr)
  assume "IntRange_forward x src h L to v st \<noteq> None"
  then obtain y where run: "IntRange_forward x src h L to v st = Some y" by auto
  define P where "P = (\<lambda>x' src' h' L' to' v' (st::scan_state) (y::error option \<times> scan_state).
     \<not> (x' = x \<and> src' = src \<and> h' = h \<and> L' = L \<and> MaxInt64 \<le> to' \<and> in_int64 v'))"
  have "P x src h L to v st y"
  proof (rule IntRange_forward.raw_induct
         [where P = P and xa = "((((((x, src), h), L), to), v), st)" and y = y,
          unfolded prod.case, OF _ run])
    fix f x' src' h' L' to' v' and st :: scan_state and y :: "error option \<times> scan_state"
    assume ih: "\<And>x' src' h' L' to' v' st y. f x' src' h' L' to' v' st = Some y \<Longrightarrow> P x' src' h' L' to' v' st y"
    and body: "(if v' \<le> to' then
                  (case st of (probes, cr) \<Rightarrow>
                     (case hashScan src' h' (StrHash x' (SprintInt x' v')) L' of
                        Inl e \<Rightarrow> Some (Some e, probes @ [v'], cr)
                      | Inr vals \<Rightarrow> f x' src' h' L' to' (wrap64 (v' + 1))
                                      (probes @ [v'], IntRange_vals L' vals cr)))
                else Some (None, st)) = Some y"
    show "P x' src' h' L' to' v' st y"
      unfolding P_def
    proof
      assume a: "x' = x \<and> src' = src \<and> h' = h \<and> L' = L \<and> MaxInt64 \<le> to' \<and> in_int64 v'"
      then have le: "v' \<le> to'" by (simp add: in_int64_def)
      obtain probes cr where st: "st = (probes, cr)" by (cases st)
      from np obtain vals where v: "hashScan src h (StrHash x (SprintInt x v')) L = Inr vals"
        by (cases "hashScan src h (StrHash x (SprintInt x v')) L") (auto dest: spec [of _ v'])
      from body le st v a
      have "f x src h L to' (wrap64 (v' + 1)) (probes @ [v'], IntRange_vals L vals cr) = Some y"
        by simp
      from ih [OF this] a wrap64_in_int64 show False by (simp add: P_def)
    qed
  qed
  with assms show False by (simp add: P_def)
qed

lemma IntRange_backward_diverges:
  assumes np: "\<forall>v. \<not> isl (hashScan src h (StrHash x (SprintInt x v)) L)"
    and "to \<le> MinInt64" and "in_int64 v"
  shows "IntRange_backward x src h L to v st = None"
proof (rule ccontr)
  assume "IntRange_backward x src h L to v st \<noteq> None"
  then obtain y where run: "IntRange_backward x src h L to v st = Some y" by auto
  define P where "P = (\<lambda>x' src' h' L' to' v' (st::scan_state) (y::error option \<times> scan_state).
     \<not> (x' = x \<and> src' = src \<and> h' = h \<and> L' = L \<and> to' \<le> MinInt64 \<and> in_int64 v'))"
  have "P x src h L to v st y"
  proof (rule IntRange_backward.raw_induct
         [where P = P and xa = "((((((x, src), h), L), to), v), st)" and y = y,
          unfolded prod.case, OF _ run])
    fix f x' src' h' L' to' v' and st :: scan_state and y :: "error option \<times> scan_state"
    assume ih: "\<And>x' src' h' L' to' v' st y. f x' src' h' L' to' v' st = Some y \<Longrightarrow> P x' src' h' L' to' v' st y"
    and body: "(if to' \<le> v' then
                  (case st of (probes, cr) \<Rightarrow>
                     (case hashScan src' h' (StrHash x' (SprintInt x' v')) L' of
                        Inl e \<Rightarrow> Some (Some e, probes @ [v'], cr)
                      | Inr vals \<Rightarrow> f x' src' h' L' to' (wrap64 (v' - 1))
                                      (probes @ [v'], IntRange_vals L' vals cr)))
                else Some (None, st)) = Some y"
    show "P x' src' h' L' to' v' st y"
      unfolding P_def
    proof
      assume a: "x' = x \<and> src' = src \<and> h' = h \<and> L' = L \<and> to' \<le> MinInt64 \<and> in_int64 v'"
      then have le: "to' \<le> v'" by (simp add: in_int64_def)
      obtain probes cr where st: "st = (probes, cr)" by (cases st)
      from np obtain vals where v: "hashScan src h (StrHash x (SprintInt x v')) L = Inr vals"
        by (cases "hashScan src h (StrHash x (SprintInt x v')) L") (auto dest: spec [of _ v'])
      from body le st v a
      have "f x src h L to' (wrap64 (v' - 1)) (probes @ [v'], IntRange_vals L vals cr) = Some y"
        by simp
      from ih [OF this] a wrap64_in_int64 show False by (simp add: P_def)
    qed
  qed
  with assms show False by (simp add: P_def)
qed

text \<open>IntRange itself is the scan, once the query has passed the checks before it.\<close>

lemma IntRange_valid:
  assumes "map_of expr ''in'' = Some (JArr pv)" and "get_limit x expr = Inr L"
    and "IntRange_to x expr = Inr to"
  shows "IntRange x (JNum f) expr src R =
           map_option (\<lambda>(err, probes, counter, R'). (err, R'))
             (IntRange_scan x src (map (Sprint x) pv) L (float_to_int x f) to R)"
  using assms by (simp add: IntRange_def Let_def)











section \<open>Two runs of an operator compared\<close>

text \<open>
  Lookup, PathExistence, IntRange and the string queries only ever insert into the
  Result Set, and what they insert does not depend on the set: a relation \<open>Q\<close> between
  two Result Sets that is kept by inserting the same ID on both sides is kept by running
  the same query on both, and both runs return the same error. For the loops of IntRange
  this is an induction on the fixed point, and it also covers a run that does not return.
  An error other than a panic is returned before anything is inserted.
\<close>

lemma hashScan_error: "hashScan src h key limit = Inl e \<Longrightarrow> e = Panic"
  by (auto simp: hashScan_def go_rem_def shard_def split: sum.splits if_splits option.splits)

lemma shard_error: "shard src i name = Inl e \<Longrightarrow> e = Panic"
  by (auto simp: shard_def split: if_splits option.splits)

lemma go_div_error: "go_div a b = Inl e \<Longrightarrow> e = Panic"
  by (auto simp: go_div_def split: if_splits)

lemma IntRange_forward_rel:
  assumes run: "IntRange_forward x src h L to v (probes, cr1) = Some (err, probes', cr1')"
    and rel: "Rel cr1 cr2"
    and step: "\<And>vals a b. Rel a b \<Longrightarrow> Rel (IntRange_vals L vals a) (IntRange_vals L vals b)"
  shows "\<exists>cr2'. IntRange_forward x src h L to v (probes, cr2) = Some (err, probes', cr2') \<and>
                 Rel cr1' cr2' \<and> (err = None \<or> err = Some Panic)"
proof -
  define P where "P = (\<lambda>x' src' h' L' to' v' (st::scan_state) (y::error option \<times> scan_state).
     x' = x \<and> src' = src \<and> h' = h \<and> L' = L \<longrightarrow>
     (\<forall>cr2. Rel (snd st) cr2 \<longrightarrow>
        (\<exists>cr2'. IntRange_forward x src h L to' v' (fst st, cr2) = Some (fst y, fst (snd y), cr2') \<and>
                Rel (snd (snd y)) cr2' \<and> (fst y = None \<or> fst y = Some Panic))))"
  have "P x src h L to v (probes, cr1) (err, probes', cr1')"
  proof (rule IntRange_forward.raw_induct
         [where P = P and xa = "((((((x, src), h), L), to), v), (probes, cr1))"
            and y = "(err, probes', cr1')", unfolded prod.case, OF _ run])
    fix f x' src' h' L' to' v' and st :: scan_state and y :: "error option \<times> scan_state"
    assume ih: "\<And>x' src' h' L' to' v' st y. f x' src' h' L' to' v' st = Some y \<Longrightarrow> P x' src' h' L' to' v' st y"
    and body: "(if v' \<le> to' then
                  (case st of (probes, cr) \<Rightarrow>
                     (case hashScan src' h' (StrHash x' (SprintInt x' v')) L' of
                        Inl e \<Rightarrow> Some (Some e, probes @ [v'], cr)
                      | Inr vals \<Rightarrow> f x' src' h' L' to' (wrap64 (v' + 1))
                                      (probes @ [v'], IntRange_vals L' vals cr)))
                else Some (None, st)) = Some y"
    show "P x' src' h' L' to' v' st y"
    unfolding P_def
    proof (intro impI allI)
      fix cr2
      assume eq: "x' = x \<and> src' = src \<and> h' = h \<and> L' = L" and r: "Rel (snd st) cr2"
      obtain probes cr where st: "st = (probes, cr)" by (cases st)
      show "\<exists>cr2'. IntRange_forward x src h L to' v' (fst st, cr2) = Some (fst y, fst (snd y), cr2') \<and>
              Rel (snd (snd y)) cr2' \<and> (fst y = None \<or> fst y = Some Panic)"
      proof (cases "v' \<le> to'")
        case False
        with body r st show ?thesis
          by (subst IntRange_forward.simps) auto
      next
        case True
        show ?thesis
        proof (cases "hashScan src h (StrHash x (SprintInt x v')) L")
          case (Inl e)
          with body r st True eq hashScan_error [OF Inl] show ?thesis
            by (subst IntRange_forward.simps) auto
        next
          case (Inr vals)
          with body st True eq
          have "f x src h L to' (wrap64 (v' + 1)) (probes @ [v'], IntRange_vals L vals cr) = Some y"
            by simp
          from ih [OF this, unfolded P_def]
          have all: "\<forall>c2. Rel (IntRange_vals L vals cr) c2 \<longrightarrow>
            (\<exists>cr2'. IntRange_forward x src h L to' (wrap64 (v' + 1)) (probes @ [v'], c2) =
                      Some (fst y, fst (snd y), cr2') \<and>
                    Rel (snd (snd y)) cr2' \<and> (fst y = None \<or> fst y = Some Panic))"
            by (simp only: fst_conv snd_conv simp_thms)
          from r st have "Rel cr cr2" by simp
          from all [rule_format, OF step [OF this, of vals]]
          obtain cr2' where
            "IntRange_forward x src h L to' (wrap64 (v' + 1))
               (probes @ [v'], IntRange_vals L vals cr2) = Some (fst y, fst (snd y), cr2')"
            "Rel (snd (snd y)) cr2'" "fst y = None \<or> fst y = Some Panic"
            by blast
          then show ?thesis using Inr True st
            by (subst IntRange_forward.simps) auto
        qed
      qed
    qed
  qed
  then have "\<forall>c2. Rel cr1 c2 \<longrightarrow>
      (\<exists>cr2'. IntRange_forward x src h L to v (probes, c2) = Some (err, probes', cr2') \<and>
              Rel cr1' cr2' \<and> (err = None \<or> err = Some Panic))"
    unfolding P_def by (simp only: fst_conv snd_conv simp_thms)
  with rel show ?thesis by blast
qed

lemma IntRange_backward_rel:
  assumes run: "IntRange_backward x src h L to v (probes, cr1) = Some (err, probes', cr1')"
    and rel: "Rel cr1 cr2"
    and step: "\<And>vals a b. Rel a b \<Longrightarrow> Rel (IntRange_vals L vals a) (IntRange_vals L vals b)"
  shows "\<exists>cr2'. IntRange_backward x src h L to v (probes, cr2) = Some (err, probes', cr2') \<and>
                 Rel cr1' cr2' \<and> (err = None \<or> err = Some Panic)"
proof -
  define P where "P = (\<lambda>x' src' h' L' to' v' (st::scan_state) (y::error option \<times> scan_state).
     x' = x \<and> src' = src \<and> h' = h \<and> L' = L \<longrightarrow>
     (\<forall>cr2. Rel (snd st) cr2 \<longrightarrow>
        (\<exists>cr2'. IntRange_backward x src h L to' v' (fst st, cr2) = Some (fst y, fst (snd y), cr2') \<and>
                Rel (snd (snd y)) cr2' \<and> (fst y = None \<or> fst y = Some Panic))))"
  have "P x src h L to v (probes, cr1) (err, probes', cr1')"
  proof (rule IntRange_backward.raw_induct
         [where P = P and xa = "((((((x, src), h), L), to), v), (probes, cr1))"
            and y = "(err, probes', cr1')", unfolded prod.case, OF _ run])
    fix f x' src' h' L' to' v' and st :: scan_state and y :: "error option \<times> scan_state"
    assume ih: "\<And>x' src' h' L' to' v' st y. f x' src' h' L' to' v' st = Some y \<Longrightarrow> P x' src' h' L' to' v' st y"
    and body: "(if to' \<le> v' then
                  (case st of (probes, cr) \<Rightarrow>
                     (case hashScan src' h' (StrHash x' (SprintInt x' v')) L' of
                        Inl e \<Rightarrow> Some (Some e, probes @ [v'], cr)
                      | Inr vals \<Rightarrow> f x' src' h' L' to' (wrap64 (v' - 1))
                                      (probes @ [v'], IntRange_vals L' vals cr)))
                else Some (None, st)) = Some y"
    show "P x' src' h' L' to' v' st y"
    unfolding P_def
    proof (intro impI allI)
      fix cr2
      assume eq: "x' = x \<and> src' = src \<and> h' = h \<and> L' = L" and r: "Rel (snd st) cr2"
      obtain probes cr where st: "st = (probes, cr)" by (cases st)
      show "\<exists>cr2'. IntRange_backward x src h L to' v' (fst st, cr2) = Some (fst y, fst (snd y), cr2') \<and>
              Rel (snd (snd y)) cr2' \<and> (fst y = None \<or> fst y = Some Panic)"
      proof (cases "to' \<le> v'")
        case False
        with body r st show ?thesis
          by (subst IntRange_backward.simps) auto
      next
        case True
        show ?thesis
        proof (cases "hashScan src h (StrHash x (SprintInt x v')) L")
          case (Inl e)
          with body r st True eq hashScan_error [OF Inl] show ?thesis
            by (subst IntRange_backward.simps) auto
        next
          case (Inr vals)
          with body st True eq
          have "f x src h L to' (wrap64 (v' - 1)) (probes @ [v'], IntRange_vals L vals cr) = Some y"
            by simp
          from ih [OF this, unfolded P_def]
          have all: "\<forall>c2. Rel (IntRange_vals L vals cr) c2 \<longrightarrow>
            (\<exists>cr2'. IntRange_backward x src h L to' (wrap64 (v' - 1)) (probes @ [v'], c2) =
                      Some (fst y, fst (snd y), cr2') \<and>
                    Rel (snd (snd y)) cr2' \<and> (fst y = None \<or> fst y = Some Panic))"
            by (simp only: fst_conv snd_conv simp_thms)
          from r st have "Rel cr cr2" by simp
          from all [rule_format, OF step [OF this, of vals]]
          obtain cr2' where
            "IntRange_backward x src h L to' (wrap64 (v' - 1))
               (probes @ [v'], IntRange_vals L vals cr2) = Some (fst y, fst (snd y), cr2')"
            "Rel (snd (snd y)) cr2'" "fst y = None \<or> fst y = Some Panic"
            by blast
          then show ?thesis using Inr True st
            by (subst IntRange_backward.simps) auto
        qed
      qed
    qed
  qed
  then have "\<forall>c2. Rel cr1 c2 \<longrightarrow>
      (\<exists>cr2'. IntRange_backward x src h L to v (probes, c2) = Some (err, probes', cr2') \<and>
              Rel cr1' cr2' \<and> (err = None \<or> err = Some Panic))"
    unfolding P_def by (simp only: fst_conv snd_conv simp_thms)
  with rel show ?thesis by blast
qed

lemma IntRange_vals_rel:
  assumes ins: "\<And>i A B. Q A B \<Longrightarrow> Q (insert i A) (insert i B)"
  shows "Q A B \<Longrightarrow>
         fst (IntRange_vals L vals (c, A)) = fst (IntRange_vals L vals (c, B)) \<and>
         Q (snd (IntRange_vals L vals (c, A))) (snd (IntRange_vals L vals (c, B)))"
  by (induction vals arbitrary: c A B) (auto simp: ins)

lemma IntRange_scan_rel:
  assumes run: "IntRange_scan x src p L from to A = Some (err, probes, c, A')"
    and ins: "\<And>i A B. Q A B \<Longrightarrow> Q (insert i A) (insert i B)"
    and q: "Q A B"
  shows "\<exists>B'. IntRange_scan x src p L from to B = Some (err, probes, c, B') \<and> Q A' B' \<and>
              (err = None \<or> err = Some Panic \<or> (err = Some ErrorNeedIndex \<and> A' = A \<and> B' = B))"
proof -
  let ?Rel = "\<lambda>a b. fst a = fst b \<and> Q (snd a) (snd b)"
  have step: "?Rel (IntRange_vals L vals a) (IntRange_vals L vals b)" if "?Rel a b" for vals a b
    using IntRange_vals_rel [of Q "snd a" "snd b" L vals "fst a", OF ins] that
    by (cases a; cases b) simp
  have rel: "?Rel (0::int, A) (0, B)" using q by simp
  show ?thesis
  proof (cases "join '','' p \<in> indexPaths src")
    case False
    with run q show ?thesis by (auto simp: IntRange_scan_def)
  next
    case True
    show ?thesis
    proof (cases "from < to")
      case True
      with run \<open>join '','' p \<in> indexPaths src\<close>
      have "IntRange_forward x src (join '','' p) L to from ([], 0, A) = Some (err, probes, c, A')"
        by (simp add: IntRange_scan_def)
      from IntRange_forward_rel [where Rel = ?Rel, OF this rel step]
      obtain cr2' where "IntRange_forward x src (join '','' p) L to from ([], 0, B) =
          Some (err, probes, cr2')" "?Rel (c, A') cr2'" "err = None \<or> err = Some Panic"
        by blast
      then show ?thesis using True \<open>join '','' p \<in> indexPaths src\<close>
        by (cases cr2') (auto simp: IntRange_scan_def)
    next
      case False
      with run \<open>join '','' p \<in> indexPaths src\<close>
      have "IntRange_backward x src (join '','' p) L to from ([], 0, A) = Some (err, probes, c, A')"
        by (simp add: IntRange_scan_def)
      from IntRange_backward_rel [where Rel = ?Rel, OF this rel step]
      obtain cr2' where "IntRange_backward x src (join '','' p) L to from ([], 0, B) =
          Some (err, probes, cr2')" "?Rel (c, A') cr2'" "err = None \<or> err = Some Panic"
        by blast
      then show ?thesis using False \<open>join '','' p \<in> indexPaths src\<close>
        by (cases cr2') (auto simp: IntRange_scan_def)
    qed
  qed
qed

lemma IntRange_rel:
  assumes run: "IntRange x f expr src A = Some (err, A')"
    and ins: "\<And>i A B. Q A B \<Longrightarrow> Q (insert i A) (insert i B)"
    and q: "Q A B"
  shows "\<exists>B'. IntRange x f expr src B = Some (err, B') \<and> Q A' B' \<and>
              (err = None \<or> err = Some Panic \<or> (A' = A \<and> B' = B))"
proof (cases "\<exists>pv fl t. map_of expr ''in'' = Some (JArr pv) \<and> get_limit x expr = Inr fl \<and>
                (\<exists>ff. f = JNum ff) \<and> IntRange_to x expr = Inr t")
  case False
  with run q show ?thesis
    by (auto simp: IntRange_def Let_def split: option.splits json.splits sum.splits)
next
  case True
  then obtain pv fl t ff where v: "map_of expr ''in'' = Some (JArr pv)" "get_limit x expr = Inr fl"
    "f = JNum ff" "IntRange_to x expr = Inr t"
    by blast
  from run v obtain probes c where
    "IntRange_scan x src (map (Sprint x) pv) fl (float_to_int x ff) t A = Some (err, probes, c, A')"
    by (auto simp: IntRange_def Let_def)
  from IntRange_scan_rel [where Q = Q, OF this ins q]
  show ?thesis using v by (auto simp: IntRange_def Let_def)
qed

lemma PathExistence_ids_rel:
  assumes ins: "\<And>i A B. Q A B \<Longrightarrow> Q (insert i A) (insert i B)"
  shows "Q A B \<Longrightarrow>
         \<exists>b c' A' B'. PathExistence_ids L ids (c, A) = (b, c', A') \<and>
                      PathExistence_ids L ids (c, B) = (b, c', B') \<and> Q A' B'"
  by (induction ids arbitrary: c A B) (auto simp: ins Let_def)

lemma PathExistence_slices_stop:
  "\<not> i < partDiv \<Longrightarrow> PathExistence_slices ht L partDiv i st = (False, st)"
  by (subst PathExistence_slices.simps) simp

lemma PathExistence_slices_step:
  "i < partDiv \<Longrightarrow>
   PathExistence_slices ht L partDiv i st =
     (case PathExistence_ids L (snd (GetPartition ht i partDiv)) st of
        (True, st') \<Rightarrow> (True, st')
      | (False, st') \<Rightarrow> PathExistence_slices ht L partDiv (i + 1) st')"
  by (subst PathExistence_slices.simps) simp

lemma PathExistence_parts_stop:
  "\<not> i < numParts src \<Longrightarrow> PathExistence_parts src jp L partDiv i st = (None, st)"
  by (subst PathExistence_parts.simps) simp

lemma PathExistence_parts_step:
  "i < numParts src \<Longrightarrow>
   PathExistence_parts src jp L partDiv i st =
     (case shard src i jp of
        Inl e \<Rightarrow> (Some e, st)
      | Inr ht \<Rightarrow>
          (case PathExistence_slices ht L partDiv 0 st of
             (True, st') \<Rightarrow> (None, st')
           | (False, st') \<Rightarrow> PathExistence_parts src jp L partDiv (i + 1) st'))"
  by (subst PathExistence_parts.simps) simp

lemma PathExistence_slices_rel:
  assumes ins: "\<And>i A B. Q A B \<Longrightarrow> Q (insert i A) (insert i B)"
  shows "Q A B \<Longrightarrow>
         \<exists>b c' A' B'. PathExistence_slices ht L partDiv i (c, A) = (b, c', A') \<and>
                      PathExistence_slices ht L partDiv i (c, B) = (b, c', B') \<and> Q A' B'"
proof (induction "nat (partDiv - i)" arbitrary: i c A B)
  case 0
  then have "\<not> i < partDiv" by simp
  with 0 show ?case by (auto simp: PathExistence_slices_stop)
next
  case (Suc n)
  then have lt: "i < partDiv" by simp
  from PathExistence_ids_rel [of Q A B L "snd (GetPartition ht i partDiv)" c, OF ins Suc.prems]
  obtain b c1 A1 B1 where 1:
    "PathExistence_ids L (snd (GetPartition ht i partDiv)) (c, A) = (b, c1, A1)"
    "PathExistence_ids L (snd (GetPartition ht i partDiv)) (c, B) = (b, c1, B1)" "Q A1 B1"
    by blast
  show ?case
  proof (cases b)
    case True
    with 1 lt show ?thesis by (auto simp: PathExistence_slices_step)
  next
    case False
    have "n = nat (partDiv - (i + 1))" using Suc.hyps(2) by simp
    from Suc.hyps(1) [OF this 1(3), of c1]
    obtain b' c' A' B' where
      "PathExistence_slices ht L partDiv (i + 1) (c1, A1) = (b', c', A')"
      "PathExistence_slices ht L partDiv (i + 1) (c1, B1) = (b', c', B')" "Q A' B'"
      by blast
    with 1 lt False show ?thesis by (auto simp: PathExistence_slices_step)
  qed
qed

lemma PathExistence_parts_rel:
  assumes ins: "\<And>i A B. Q A B \<Longrightarrow> Q (insert i A) (insert i B)"
  shows "Q A B \<Longrightarrow>
         \<exists>err c' A' B'. PathExistence_parts src jp L partDiv i (c, A) = (err, c', A') \<and>
                        PathExistence_parts src jp L partDiv i (c, B) = (err, c', B') \<and> Q A' B' \<and>
                        (err = None \<or> err = Some Panic)"
proof (induction "nat (numParts src - i)" arbitrary: i c A B)
  case 0
  then have "\<not> i < numParts src" by simp
  with 0 show ?case by (auto simp: PathExistence_parts_stop)
next
  case (Suc n)
  then have lt: "i < numParts src" by simp
  show ?case
  proof (cases "shard src i jp")
    case (Inl e)
    with lt Suc.prems shard_error [OF Inl] show ?thesis
      by (auto simp: PathExistence_parts_step)
  next
    case (Inr ht)
    from PathExistence_slices_rel [of Q A B ht L partDiv 0 c, OF ins Suc.prems]
    obtain b c1 A1 B1 where 1:
      "PathExistence_slices ht L partDiv 0 (c, A) = (b, c1, A1)"
      "PathExistence_slices ht L partDiv 0 (c, B) = (b, c1, B1)" "Q A1 B1"
      by blast
    show ?thesis
    proof (cases b)
      case True
      with 1 lt Inr show ?thesis by (auto simp: PathExistence_parts_step)
    next
      case False
      have "n = nat (numParts src - (i + 1))" using Suc.hyps(2) by simp
      from Suc.hyps(1) [OF this 1(3), of c1]
      obtain err c' A' B' where
        "PathExistence_parts src jp L partDiv (i + 1) (c1, A1) = (err, c', A')"
        "PathExistence_parts src jp L partDiv (i + 1) (c1, B1) = (err, c', B')" "Q A' B'"
        "err = None \<or> err = Some Panic"
        by blast
      with 1 lt Inr False show ?thesis
        by (auto simp: PathExistence_parts_step)
    qed
  qed
qed

lemma PathExistence_rel:
  assumes run: "PathExistence x hasPath expr src A = (err, A')"
    and ins: "\<And>i A B. Q A B \<Longrightarrow> Q (insert i A) (insert i B)"
    and q: "Q A B"
  shows "\<exists>B'. PathExistence x hasPath expr src B = (err, B') \<and> Q A' B' \<and>
              (err = None \<or> err = Some Panic \<or> (A' = A \<and> B' = B))"
proof (cases "\<exists>pv fl d0 d1. hasPath = JArr pv \<and> get_limit x expr = Inr fl \<and>
                join (INDEX_PATH_SEP x) (map (Sprint x) pv) \<in> indexPaths src \<and>
                go_div (approxDocCount src) (numParts src) = Inr d0 \<and> go_div d0 4000 = Inr d1")
  case False
  with run q show ?thesis
    by (auto simp: PathExistence_def Let_def split: json.splits sum.splits if_splits
             dest: go_div_error)
next
  case True
  then obtain pv fl d0 d1 where v: "hasPath = JArr pv" "get_limit x expr = Inr fl"
    "join (INDEX_PATH_SEP x) (map (Sprint x) pv) \<in> indexPaths src"
    "go_div (approxDocCount src) (numParts src) = Inr d0" "go_div d0 4000 = Inr d1"
    by blast
  let ?pd = "if d1 = 0 then wrap64 (d1 + 1) else d1"
  from PathExistence_parts_rel
         [of Q A B src "join (INDEX_PATH_SEP x) (map (Sprint x) pv)" fl ?pd 0 0, OF ins q]
  obtain e c' A1 B1 where
    "PathExistence_parts src (join (INDEX_PATH_SEP x) (map (Sprint x) pv)) fl ?pd 0 (0, A) = (e, c', A1)"
    "PathExistence_parts src (join (INDEX_PATH_SEP x) (map (Sprint x) pv)) fl ?pd 0 (0, B) = (e, c', B1)"
    "Q A1 B1" "e = None \<or> e = Some Panic"
    by blast
  with run v show ?thesis by (auto simp: PathExistence_def Let_def)
qed

lemma Lookup_values_rel:
  assumes ins: "\<And>i A B. Q A B \<Longrightarrow> Q (insert i A) (insert i B)"
  shows "Q A B \<Longrightarrow> Q (Lookup_values x s m vs A) (Lookup_values x s m vs B)"
  by (induction vs arbitrary: A B) (auto simp: ins)

lemma Lookup_matches_rel:
  assumes ins: "\<And>i A B. Q A B \<Longrightarrow> Q (insert i A) (insert i B)"
  shows "Q A B \<Longrightarrow> Q (Lookup_matches x src p s ms A) (Lookup_matches x src p s ms B)"
  by (induction ms arbitrary: A B) (auto simp: Lookup_values_rel [where Q = Q, OF ins] split: option.splits)

lemma Lookup_rel:
  assumes run: "Lookup x v expr src A = (err, A')"
    and ins: "\<And>i A B. Q A B \<Longrightarrow> Q (insert i A) (insert i B)"
    and q: "Q A B"
  shows "\<exists>B'. Lookup x v expr src B = (err, B') \<and> Q A' B' \<and> (err = None \<or> (A' = A \<and> B' = B))"
  using run q Lookup_matches_rel [where Q = Q, OF ins q]
  by (auto simp: Lookup_def Let_def split: option.splits json.splits sum.splits if_splits)

lemma EvalAllIDs_rel:
  assumes ins: "\<And>i A B. Q A B \<Longrightarrow> Q (insert i A) (insert i B)"
  shows "Q A B \<Longrightarrow> Q (snd (EvalAllIDs src A)) (snd (EvalAllIDs src B))"
proof -
  have "Q A B \<Longrightarrow> Q (foldl (\<lambda>r i. insert i r) A ids) (foldl (\<lambda>r i. insert i r) B ids)" for ids
    by (induction ids arbitrary: A B) (auto simp: ins)
  then show "Q A B \<Longrightarrow> ?thesis" by (simp add: EvalAllIDs_def)
qed

lemma leaf_query_rel:
  assumes leaf: "leaf_query q"
    and run: "evalQuery x q src A = Some (err, A')"
    and ins: "\<And>i A B. Q A B \<Longrightarrow> Q (insert i A) (insert i B)"
    and q: "Q A B"
  shows "\<exists>B'. evalQuery x q src B = Some (err, B') \<and> Q A' B' \<and>
              (err = None \<or> err = Some Panic \<or> (A' = A \<and> B' = B))"
proof (cases q)
  case (JStr s)
  with run q ins EvalAllIDs_rel [of Q A B src, OF ins q] show ?thesis
    by (auto simp: EvalAllIDs_def split: if_splits option.splits)
next
  case (JArr qs)
  with leaf show ?thesis by (simp add: leaf_query_def)
next
  case (JObj expr)
  show ?thesis
  proof (cases "map_of expr ''eq''")
    case (Some lookupValue)
    with run JObj have "Lookup x lookupValue expr src A = (err, A')"
      by (simp add: evalQuery_JObj)
    from Lookup_rel [where Q = Q, OF this ins q] Some JObj show ?thesis
      by (auto simp: evalQuery_JObj)
  next
    case eq: None
    show ?thesis
    proof (cases "map_of expr ''has''")
      case (Some hasPath)
      with run JObj eq have "PathExistence x hasPath expr src A = (err, A')"
        by (simp add: evalQuery_JObj)
      from PathExistence_rel [where Q = Q, OF this ins q] Some JObj eq show ?thesis
        by (auto simp: evalQuery_JObj)
    next
      case has: None
      from leaf JObj eq has have nc: "map_of expr ''n'' = None" "map_of expr ''c'' = None"
        by (simp_all add: leaf_query_def)
      show ?thesis
      proof (cases "map_of expr ''int-from''")
        case (Some intFrom)
        with run JObj eq has nc have "IntRange x intFrom expr src A = Some (err, A')"
          by (simp add: evalQuery_JObj)
        from IntRange_rel [where Q = Q, OF this ins q] Some JObj eq has nc show ?thesis
          by (auto simp: evalQuery_JObj)
      next
        case f1: None
        show ?thesis
        proof (cases "map_of expr ''int from''")
          case (Some intFrom)
          with run JObj eq has nc f1 have "IntRange x intFrom expr src A = Some (err, A')"
            by (simp add: evalQuery_JObj)
          from IntRange_rel [where Q = Q, OF this ins q] Some JObj eq has nc f1 show ?thesis
            by (auto simp: evalQuery_JObj)
        next
          case None
          with run JObj eq has nc f1 q show ?thesis
            by (auto simp: evalQuery_JObj)
        qed
      qed
    qed
  qed
qed (use run q in auto)

section \<open>A failing sub-expression of a Union\<close>

lemma EvalUnion_append:
  "EvalUnion x qs src R = Some (None, R1) \<Longrightarrow>
   EvalUnion x (qs @ rest) src R = EvalUnion x rest src R1"
proof (induction qs arbitrary: R)
  case Nil
  then show ?case by simp
next
  case (Cons q qs)
  then show ?case
    by (auto simp: EvalUnion_Cons split: option.splits)
qed

lemma leaf_query_error_unchanged:
  assumes "leaf_query q" and "evalQuery x q src R = Some (Some e, R')" and "e \<noteq> Panic"
  shows "R' = R"
  using leaf_query_rel [where Q = "(=)", OF assms(1,2), of R] assms(3)
  by auto

text \<open>
  Claim C4, amended. When a sub-expression of a Union fails, the Union stops at once
  (the sub-expressions after it play no part), the error is returned, and the Result Set
  is left in the state in which the failing sub-expression left it, with no rollback.
  When the failing sub-expression is a string or a Lookup, PathExistence or IntRange
  query or an object without operation, and the error is one of the query errors, that
  state is exactly the contributions of the sub-expressions before it.
\<close>

theorem EvalUnion_abort:
  assumes "EvalUnion x qs src R = Some (None, R1)"
    and "evalQuery x q src R1 = Some (Some e, R2)"
  shows "EvalUnion x (qs @ q # rest) src R = Some (Some e, R2) \<and>
         (leaf_query q \<and> e \<noteq> Panic \<longrightarrow> R2 = R1)"
proof -
  have "EvalUnion x (qs @ q # rest) src R = EvalUnion x (q # rest) src R1"
    using assms(1) by (rule EvalUnion_append)
  also have "\<dots> = Some (Some e, R2)"
    using assms(2) by (simp add: EvalUnion_Cons)
  finally show ?thesis
    using leaf_query_error_unchanged [OF _ assms(2)] by blast
qed

text \<open>
  Claim C4, as stated, says that the Result Set holds exactly the contributions of the
  sub-expressions before the failing one. A failing Complement or nested Union has
  already changed the set: after \<open>"1"\<close> the set is \<open>{1}\<close>, and the failing Complement
  \<open>{"c": ["1", "x"]}\<close> leaves \<open>{}\<close>, the failing Union \<open>["2", "x"]\<close> leaves \<open>{1, 2}\<close>.
\<close>

theorem EvalUnion_abort_counterexample:
  "EvalUnion demo_ext [JStr ''1''] demo_col {} = Some (None, {1}) \<and>
   EvalUnion demo_ext [JStr ''1'', JObj [(''c'', JArr [JStr ''1'', JStr ''x''])]] demo_col {} =
     Some (Some ErrorInvalidPKID, {}) \<and>
   EvalUnion demo_ext [JStr ''1'', JArr [JStr ''2'', JStr ''x'']] demo_col {} =
     Some (Some ErrorInvalidPKID, {1, 2}) \<and>
   ({} :: int set) \<noteq> {1} \<and> ({1, 2} :: int set) \<noteq> {1}"
  by code_simp

text \<open>The amended statement on the concrete collection, the failing sub-expression a string.\<close>

theorem EvalUnion_abort_witness:
  "EvalUnion demo_ext [JStr ''1'', JStr ''2'', JStr ''x'', JStr ''3''] demo_col {} =
     Some (Some ErrorInvalidPKID, {1, 2})"
proof -
  have a: "EvalUnion demo_ext [JStr ''1'', JStr ''2''] demo_col {} = Some (None, {1, 2})"
    by code_simp
  have b: "evalQuery demo_ext (JStr ''x'') demo_col {1, 2} = Some (Some ErrorInvalidPKID, {1, 2})"
    by code_simp
  from EvalUnion_abort [OF a b, of "[JStr ''3'']"] show ?thesis by simp
qed

section \<open>Union of queries that only add\<close>

lemma EvalUnion_rel:
  assumes ins: "\<And>i A B. Q A B \<Longrightarrow> Q (insert i A) (insert i B)"
    and sub: "\<And>q A B err A'. q \<in> set qs \<Longrightarrow> evalQuery x q src A = Some (err, A') \<Longrightarrow> Q A B \<Longrightarrow>
                \<exists>B'. evalQuery x q src B = Some (err, B') \<and> Q A' B'"
  shows "EvalUnion x qs src A = Some (err, A') \<Longrightarrow> Q A B \<Longrightarrow>
         \<exists>B'. EvalUnion x qs src B = Some (err, B') \<and> Q A' B'"
  using sub
proof (induction qs arbitrary: A B)
  case Nil
  then show ?case by auto
next
  case (Cons q qs)
  from Cons.prems(1) obtain e1 A1 where 1: "evalQuery x q src A = Some (e1, A1)"
    by (auto simp: EvalUnion_Cons split: option.splits)
  from Cons.prems(3) [OF _ 1 Cons.prems(2)]
  obtain B1 where 2: "evalQuery x q src B = Some (e1, B1)" "Q A1 B1" by auto
  show ?case
  proof (cases e1)
    case (Some e)
    with 1 2 Cons.prems(1) show ?thesis by (auto simp: EvalUnion_Cons)
  next
    case None
    with 1 Cons.prems(1) have "EvalUnion x qs src A1 = Some (err, A')"
      by (simp add: EvalUnion_Cons)
    from Cons.IH [OF this 2(2)] Cons.prems(3)
    obtain B' where "EvalUnion x qs src B1 = Some (err, B')" "Q A' B'" by auto
    with None 2 show ?thesis by (auto simp: EvalUnion_Cons)
  qed
qed

lemma additive_rel:
  assumes ins: "\<And>i A B. Q A B \<Longrightarrow> Q (insert i A) (insert i B)"
  shows "additive q \<Longrightarrow> evalQuery x q src A = Some (err, A') \<Longrightarrow> Q A B \<Longrightarrow>
         \<exists>B'. evalQuery x q src B = Some (err, B') \<and> Q A' B'"
proof (induction q arbitrary: A B err A')
  case (JArr qs)
  have sub: "\<exists>B'. evalQuery x q src B = Some (err, B') \<and> Q A' B'"
    if "q \<in> set qs" "evalQuery x q src A = Some (err, A')" "Q A B" for q A B err A'
    using JArr.IH [OF that(1) _ that(2,3)] JArr.prems(1) that(1) by simp
  from EvalUnion_rel [where Q = Q and qs = qs and A = A and err = err and A' = A' and B = B, OF ins sub] JArr.prems
  show ?case by simp
next
  case (JObj expr)
  from leaf_query_rel [where Q = Q, OF _ JObj.prems(2) ins JObj.prems(3)] JObj.prems(1)
  show ?case by auto
next
  case (JStr s)
  from leaf_query_rel [where Q = Q, OF _ JStr.prems(2) ins JStr.prems(3)] JStr.prems(1)
  show ?case by auto
qed auto

lemma additive_shift:
  assumes "additive q" and "evalQuery x q src R = Some (err, R')"
  shows "\<exists>S. evalQuery x q src {} = Some (err, S) \<and> R' = R \<union> S \<and> finite S"
proof -
  from additive_rel [where Q = "\<lambda>A B. A = R \<union> B", OF _ assms, of "{}"]
  obtain S where S: "evalQuery x q src {} = Some (err, S)" "R' = R \<union> S" by auto
  from additive_rel [where Q = "\<lambda>A B. A = B \<and> finite A", OF _ assms(1) S(1), of "{}"]
  have "finite S" by auto
  with S show ?thesis by blast
qed

lemma additive_unshift:
  assumes "additive q" and "evalQuery x q src {} = Some (err, S)"
  shows "evalQuery x q src R = Some (err, R \<union> S)"
  using additive_rel [where Q = "\<lambda>A B. B = R \<union> A", OF _ assms, of R] by auto

lemma EvalUnion_additive_union:
  "\<forall>q \<in> set qs. additive q \<Longrightarrow>
   list_all2 (\<lambda>q S. evalQuery x q src {} = Some (None, S)) qs Ss \<Longrightarrow>
   EvalUnion x qs src R = Some (None, R \<union> \<Union> (set Ss))"
proof (induction qs arbitrary: Ss R)
  case Nil
  then show ?case by simp
next
  case (Cons q qs)
  from Cons.prems(2) obtain S Ss' where Ss: "Ss = S # Ss'"
    "evalQuery x q src {} = Some (None, S)"
    "list_all2 (\<lambda>q S. evalQuery x q src {} = Some (None, S)) qs Ss'"
    by (auto simp: list_all2_Cons1)
  from Cons.prems(1) have "additive q" "\<forall>q \<in> set qs. additive q" by simp_all
  from additive_unshift [OF this(1) Ss(2), of R] Cons.IH [OF this(2) Ss(3), of "R \<union> S"]
  show ?case by (simp add: EvalUnion_Cons Ss(1) Un_assoc)
qed

text \<open>
  Claim C3, amended. For a sub-expression list that evaluates without error, appending a
  further sub-expression that contains no Intersect and no Complement never gives a
  smaller final Result Set (the new set includes the old one). A Union of such
  sub-expressions, each evaluating without error to \<open>S\<^sub>i\<close> on its own, yields the
  running set joined with all the \<open>S\<^sub>i\<close>, which does not depend on their order or
  grouping.
\<close>

theorem EvalUnion_additive:
  "(additive q \<and> EvalUnion x qs src R = Some (None, R1) \<and>
      EvalUnion x (qs @ [q]) src R = Some (e, R2) \<longrightarrow> R1 \<subseteq> R2 \<and> card R1 \<le> card R2) \<and>
   ((\<forall>q \<in> set qs. additive q) \<and>
      list_all2 (\<lambda>q S. evalQuery x q src {} = Some (None, S)) qs Ss \<longrightarrow>
        EvalUnion x qs src R = Some (None, R \<union> \<Union> (set Ss)))"
proof (intro conjI impI)
  assume a: "additive q \<and> EvalUnion x qs src R = Some (None, R1) \<and>
             EvalUnion x (qs @ [q]) src R = Some (e, R2)"
  then have "EvalUnion x [q] src R1 = Some (e, R2)"
    using EvalUnion_append [of x qs src R R1 "[q]"] by simp
  then have "evalQuery x q src R1 = Some (e, R2)"
    by (auto simp: EvalUnion_Cons split: option.splits)
  from additive_shift [OF _ this] a obtain S where S: "R2 = R1 \<union> S" "finite S" by auto
  have "card R1 \<le> card (R1 \<union> S)"
  proof (cases "finite R1")
    case True
    with S(2) show ?thesis by (intro card_mono) auto
  next
    case False
    then show ?thesis by simp
  qed
  with S show "R1 \<subseteq> R2" "card R1 \<le> card R2" by auto
next
  assume "(\<forall>q \<in> set qs. additive q) \<and>
          list_all2 (\<lambda>q S. evalQuery x q src {} = Some (None, S)) qs Ss"
  then show "EvalUnion x qs src R = Some (None, R \<union> \<Union> (set Ss))"
    using EvalUnion_additive_union by blast
qed

text \<open>
  Claim C3, as stated, holds for every appended sub-expression. Complement replaces the
  running set of the Union by its symmetric difference with the sub-result: appending
  \<open>{"c": ["1"]}\<close> to \<open>["1", "2"]\<close> takes the result from \<open>{1, 2}\<close> to \<open>{2}\<close>, and the
  same three sub-expressions in another order give \<open>{1, 2}\<close>.
\<close>

theorem EvalUnion_monotone_counterexample:
  "EvalUnion demo_ext [JStr ''1'', JStr ''2''] demo_col {} = Some (None, {1, 2}) \<and>
   EvalUnion demo_ext [JStr ''1'', JStr ''2'', JObj [(''c'', JArr [JStr ''1''])]] demo_col {} =
     Some (None, {2}) \<and>
   EvalUnion demo_ext [JObj [(''c'', JArr [JStr ''1''])], JStr ''1'', JStr ''2''] demo_col {} =
     Some (None, {1, 2}) \<and>
   card {2 :: int} < card {1, 2 :: int}"
  by code_simp

text \<open>The amended statement on the concrete collection.\<close>

theorem EvalUnion_additive_witness:
  "EvalUnion demo_ext [JStr ''1'', JStr ''2''] demo_col {} = Some (None, {1, 2}) \<and>
   EvalUnion demo_ext ([JStr ''1'', JStr ''2''] @ [JStr ''3'']) demo_col {} = Some (None, {1, 2, 3}) \<and>
   card {1, 2 :: int} \<le> card {1, 2, 3 :: int} \<and>
   EvalUnion demo_ext [JStr ''1'', JObj [(''eq'', JNum 2), (''in'', JArr [JStr ''a''])]] demo_col {7} =
     Some (None, {7} \<union> \<Union> (set [{1}, {2}]))"
proof -
  let ?qs = "[JStr ''1'', JObj [(''eq'', JNum 2), (''in'', JArr [JStr ''a''])]]"
  have a: "additive (JStr ''3'')"
    by (simp add: leaf_query_def)
  have b: "EvalUnion demo_ext [JStr ''1'', JStr ''2''] demo_col {} = Some (None, {1, 2})"
    by code_simp
  have c: "EvalUnion demo_ext ([JStr ''1'', JStr ''2''] @ [JStr ''3'']) demo_col {} =
             Some (None, {1, 2, 3})"
    by code_simp
  have d: "\<forall>q \<in> set ?qs. additive q"
    by (simp add: leaf_query_def)
  have e: "list_all2 (\<lambda>q S. evalQuery demo_ext q demo_col {} = Some (None, S)) ?qs [{1}, {2}]"
    by code_simp
  from EvalUnion_additive
         [of "JStr ''3''" demo_ext "[JStr ''1'', JStr ''2'']" demo_col "{}" "{1, 2}" None
             "{1, 2, 3}" "[{1}, {2}]"] a b c
  have 1: "card {1, 2 :: int} \<le> card {1, 2, 3 :: int}" by blast
  from EvalUnion_additive [of "JStr ''3''" demo_ext ?qs demo_col "{7}" "{}" None "{}" "[{1}, {2}]"] d e
  have 2: "EvalUnion demo_ext ?qs demo_col {7} = Some (None, {7} \<union> \<Union> (set [{1}, {2}]))"
    by blast
  from b c 1 2 show ?thesis by blast
qed

section \<open>PathExistence with a limit\<close>

lemma PathExistence_ids_take:
  assumes "L \<le> MaxInt64"
  shows "0 \<le> c \<Longrightarrow> c < L \<Longrightarrow>
         PathExistence_ids L ids (c, R) =
           (L \<le> c + int (length ids), min L (c + int (length ids)),
            R \<union> set (take (nat (L - c)) ids))"
proof (induction ids arbitrary: c R)
  case Nil
  then show ?case by simp
next
  case (Cons i ids)
  have w: "wrap64 (c + 1) = c + 1"
    using Cons.prems assms by (intro wrap64_id) (simp add: in_int64_def MinInt64_def)
  have n: "nat (L - c) = Suc (nat (L - (c + 1)))"
    using Cons.prems by simp
  show ?case
  proof (cases "c + 1 = L")
    case True
    then show ?thesis using w by (simp add: Let_def n)
  next
    case False
    with Cons.prems have "c + 1 < L" "0 \<le> c + 1" by simp_all
    from Cons.IH [OF this(2,1), of "insert i R"] False w
    show ?thesis by (simp add: Let_def n add.assoc)
  qed
qed

lemma PathExistence_slices_take:
  assumes "L \<le> MaxInt64"
  shows "0 \<le> c \<Longrightarrow> c < L \<Longrightarrow>
         PathExistence_slices ht L partDiv i (c, R) =
           (L \<le> c + int (length (shard_entries ht partDiv i)),
            min L (c + int (length (shard_entries ht partDiv i))),
            R \<union> set (take (nat (L - c)) (shard_entries ht partDiv i)))"
proof (induction "nat (partDiv - i)" arbitrary: i c R)
  case 0
  then have "\<not> i < partDiv" by simp
  then show ?case using 0 by (simp add: PathExistence_slices_stop shard_entries_def)
next
  case (Suc n)
  then have lt: "i < partDiv" by simp
  let ?ids = "snd (GetPartition ht i partDiv)"
  have E: "shard_entries ht partDiv i = ?ids @ shard_entries ht partDiv (i + 1)"
    using lt by (simp add: shard_entries_def upto_rec1 [of i "partDiv - 1"])
  note ids = PathExistence_ids_take [OF assms Suc.prems, of ?ids R]
  show ?case
  proof (cases "L \<le> c + int (length ?ids)")
    case True
    then have "nat (L - c) \<le> length ?ids" by simp
    with True ids lt show ?thesis
      by (simp add: PathExistence_slices_step E)
  next
    case False
    then have c1: "0 \<le> c + int (length ?ids)" "c + int (length ?ids) < L"
      using Suc.prems by simp_all
    have n: "n = nat (partDiv - (i + 1))" using Suc.hyps(2) by simp
    have tk: "take (nat (L - c)) ?ids = ?ids" using False by simp
    have d: "nat (L - c) - length ?ids = nat (L - (c + int (length ?ids)))"
      using False by simp
    from Suc.hyps(1) [OF n c1, of "R \<union> set ?ids"] False ids lt
    show ?thesis
      by (simp add: PathExistence_slices_step E tk d Un_assoc add.assoc)
  qed
qed

lemma PathExistence_parts_take:
  assumes "L \<le> MaxInt64"
    and "\<forall>p \<in> {0..numParts src - 1}. \<not> isl (shard src p jp)"
  shows "0 \<le> i \<Longrightarrow> 0 \<le> c \<Longrightarrow> c < L \<Longrightarrow>
         \<exists>c'. PathExistence_parts src jp L partDiv i (c, R) =
           (None, c', R \<union> set (take (nat (L - c)) (PathExistence_entries_from src jp partDiv i)))"
proof (induction "nat (numParts src - i)" arbitrary: i c R)
  case 0
  then have "\<not> i < numParts src" by simp
  then show ?case using 0
    by (simp add: PathExistence_parts_stop PathExistence_entries_from_def)
next
  case (Suc n)
  then have lt: "i < numParts src" by simp
  with Suc.prems assms(2) have "\<not> isl (shard src i jp)" by simp
  then obtain ht where ht: "shard src i jp = Inr ht" by (cases "shard src i jp") auto
  let ?E = "shard_entries ht partDiv 0"
  have E: "PathExistence_entries_from src jp partDiv i =
             ?E @ PathExistence_entries_from src jp partDiv (i + 1)"
    using lt ht by (simp add: PathExistence_entries_from_def upto_rec1 [of i "numParts src - 1"])
  note sl = PathExistence_slices_take [OF assms(1) Suc.prems(2,3), of ht partDiv 0 R]
  show ?case
  proof (cases "L \<le> c + int (length ?E)")
    case True
    then have "nat (L - c) \<le> length ?E" by simp
    with True sl lt ht show ?thesis
      by (simp add: PathExistence_parts_step E)
  next
    case False
    then have c1: "0 \<le> c + int (length ?E)" "c + int (length ?E) < L"
      using Suc.prems by simp_all
    have n: "n = nat (numParts src - (i + 1))" using Suc.hyps(2) by simp
    have i1: "0 \<le> i + 1" using Suc.prems by simp
    have tk: "take (nat (L - c)) ?E = ?E" using False by simp
    have d: "nat (L - c) - length ?E = nat (L - (c + int (length ?E)))"
      using False by simp
    from Suc.hyps(1) [OF n i1 c1, of "R \<union> set ?E"] False sl lt ht
    show ?thesis
      by (auto simp: PathExistence_parts_step E tk d Un_assoc)
  qed
qed

lemma go_div_Inr: "b \<noteq> 0 \<Longrightarrow> go_div a b = Inr (wrap64 (a sdiv b))"
  by (simp add: go_div_def)

text \<open>
  Claim C8, amended. With a limit \<open>L > 0\<close>, on a collection whose shards are all there,
  PathExistence stops, across all shards, as soon as it has read \<open>L\<close> index entries: the
  Result Set becomes the running set joined with the IDs of the first \<open>min L N\<close> entries
  in reading order, \<open>N\<close> the number of entries the index holds for the path. So at
  most \<open>min L N\<close> IDs are added; and the returned set has exactly
  \<open>min L totalMatches\<close> elements when it starts empty and no document has two entries
  (then \<open>N\<close> is the number of documents).
\<close>

theorem PathExistence_limit:
  assumes "0 < L" and "L \<le> MaxInt64" and "get_limit x expr = Inr L"
    and "join (INDEX_PATH_SEP x) (map (Sprint x) pv) \<in> indexPaths src"
    and "numParts src \<noteq> 0"
    and "\<forall>p \<in> {0..numParts src - 1}.
           \<not> isl (shard src p (join (INDEX_PATH_SEP x) (map (Sprint x) pv)))"
    and "E = PathExistence_entries src (join (INDEX_PATH_SEP x) (map (Sprint x) pv))"
  shows "PathExistence x (JArr pv) expr src R = (None, R \<union> set (take (nat L) E)) \<and>
         card (R \<union> set (take (nat L) E) - R) \<le> min (nat L) (length E) \<and>
         (R = {} \<and> distinct E \<longrightarrow>
            card (snd (PathExistence x (JArr pv) expr src R)) = min (nat L) (card (set E)))"
proof -
  let ?jp = "join (INDEX_PATH_SEP x) (map (Sprint x) pv)"
  from PathExistence_parts_take [OF assms(2,6), of 0 0 "PathExistence_partDiv src" R] assms(1)
  obtain c' where "PathExistence_parts src ?jp L (PathExistence_partDiv src) 0 (0, R) =
      (None, c', R \<union> set (take (nat L) E))"
    by (auto simp: assms(7) PathExistence_entries_def)
  then have run: "PathExistence x (JArr pv) expr src R = (None, R \<union> set (take (nat L) E))"
    using assms(3,4,5)
    by (simp add: PathExistence_def Let_def go_div_Inr PathExistence_partDiv_def)
  have "R \<union> set (take (nat L) E) - R \<subseteq> set (take (nat L) E)" by blast
  then have "card (R \<union> set (take (nat L) E) - R) \<le> card (set (take (nat L) E))"
    by (intro card_mono) auto
  also have "\<dots> \<le> length (take (nat L) E)" by (rule card_length)
  finally have bound: "card (R \<union> set (take (nat L) E) - R) \<le> min (nat L) (length E)"
    by simp
  have "card (set (take (nat L) E)) = min (nat L) (card (set E))" if "distinct E"
    using that by (simp add: distinct_card min.commute)
  with run bound show ?thesis by auto
qed

text \<open>
  Claim C8, as stated, gives the size \<open>min L totalMatches\<close> for every query. The
  counter counts entries, not documents: document 1 has two values at \<^verbatim>\<open>b\<close>, hence
  two entries; with limit 2 the scan reads both and stops, and the result is \<open>{1}\<close>
  although two documents have the path.
\<close>

theorem PathExistence_limit_counterexample:
  "PathExistence demo_ext (JArr [JStr ''b''])
     [(''has'', JArr [JStr ''b'']), (''limit'', JNum 2)] demo_col {} = (None, {1}) \<and>
   PathExistence_entries demo_col ''b'' = [1, 1, 2] \<and>
   card {1 :: int} \<noteq> min 2 (card {1, 2 :: int})"
  by code_simp

text \<open>The amended statement on the concrete collection: path \<^verbatim>\<open>a\<close>, limit 2.\<close>

theorem PathExistence_limit_witness:
  "PathExistence demo_ext (JArr [JStr ''a''])
     [(''has'', JArr [JStr ''a'']), (''limit'', JNum 2)] demo_col {} =
     (None, {} \<union> set (take (nat 2) [2, 1, 3, 4, 5, 9])) \<and>
   card (snd (PathExistence demo_ext (JArr [JStr ''a''])
     [(''has'', JArr [JStr ''a'']), (''limit'', JNum 2)] demo_col {})) =
     min (nat 2) (card (set [2, 1, 3, 4, 5, 9 :: int]))"
proof -
  let ?expr = "[(''has'', JArr [JStr ''a'']), (''limit'', JNum 2)]"
  let ?jp = "join (INDEX_PATH_SEP demo_ext) (map (Sprint demo_ext) [JStr ''a''])"
  have a: "(0::int) < 2" "2 \<le> MaxInt64"
    by (simp_all add: MaxInt64_def)
  have b: "get_limit demo_ext ?expr = Inr 2"
    by (simp add: get_limit_def demo_ext_def demo_float_to_int_def)
  have jp: "?jp = ''a''"
    by (simp add: demo_ext_def demo_Sprint_def)
  have c: "?jp \<in> indexPaths demo_col"
    unfolding jp by (simp add: demo_col_def)
  have d: "numParts demo_col \<noteq> 0"
    by (simp add: demo_col_def)
  have e: "\<forall>p \<in> {0..numParts demo_col - 1}. \<not> isl (shard demo_col p ?jp)"
  proof -
    have i: "{0..numParts demo_col - 1} = set [0, 1]"
      by (auto simp: demo_col_def)
    have "\<forall>p \<in> set [0, 1]. \<not> isl (shard demo_col p ''a'')"
      by code_simp
    then show ?thesis unfolding i jp .
  qed
  have f: "[2, 1, 3, 4, 5, 9] = PathExistence_entries demo_col ?jp"
    unfolding jp by code_simp
  have g: "distinct [2, 1, 3, 4, 5, 9 :: int]"
    by simp
  from PathExistence_limit [OF a b c d e f, of "{}"] g
  show ?thesis by blast
qed

end
